theory Spec2Isabelle
  imports Main "HOL-Library.Word" "HOL-Library.Signed_Division"
begin

unbundle bit_operations_syntax

section \<open>The SoftwareSerial object\<close>

text \<open>
  A shallow embedding of \<^verbatim>\<open>SoftwareSerial.cpp\<close>, the bit-banged UART for ESP8266/ESP32.

  Integers. \<^verbatim>\<open>uint32_t\<close> values (cycle stamps, deadlines, durations) are \<open>32 word\<close> and
  \<^verbatim>\<open>uint8_t\<close> values are \<open>8 word\<close>, so their arithmetic wraps as on the machine.
  \<^verbatim>\<open>int\<close>/\<^verbatim>\<open>int32_t\<close> values (ring indices, sizes, the bit cursor, the bit period, the
  signed cycle difference) are \<open>int\<close>; C++ division and remainder truncate towards zero
  and are written \<open>sdiv\<close> and \<open>smod\<close>. Signed overflow is undefined in C++ and is not
  modelled: the theorems below bound the values they depend on.

  Faults. Where the C++ has no defined result (division or remainder by zero, a shift by
  a negative count, a buffer access through a null pointer or outside the allocation, a
  negative drain count) the model returns \<open>None\<close>.

  Environment. \<^verbatim>\<open>ESP.getCycleCount()\<close> and \<^verbatim>\<open>ESP.getCpuFreqMHz()\<close> are parameters of the
  functions that call them (one parameter per read of the cycle counter; the reads at
  the head of the delays of one transmission are a function \<open>clk\<close> of their number, and
  the reads of the loop that closes a delay are not modelled), the level
  read by \<^verbatim>\<open>digitalRead\<close> is a parameter of the interrupt handler, and the results of
  \<^verbatim>\<open>malloc\<close> are parameters of the constructor. Calls into the GPIO layer are returned as
  a list of events in call order. An interrupt is a step of its own (\<open>rxRead\<close>) between
  two foreground calls; preemption inside a foreground call is not modelled.

  The class declaration (\<^verbatim>\<open>SoftwareSerial.h\<close>) is not part of the sources at hand: the
  fields are the ones the member functions use, with the types their uses require, and
  the default member initialisers are a parameter of the constructor.
\<close>

type_synonym u8 = "8 word"
type_synonym u32 = "32 word"

record sws =
  m_oneWire :: bool
  m_rxPin :: int
  m_txPin :: int
  m_txEnablePin :: int
  m_rxValid :: bool
  m_rxEnabled :: bool
  m_txValid :: bool
  m_txEnableValid :: bool
  m_invert :: bool
  m_overflow :: bool
  m_swsInstsIdx :: int
  m_bitCycles :: int
  m_periodDeadline :: u32
  m_intTxEnabled :: bool
  m_inPos :: int
  m_outPos :: int
  m_bufSize :: int
  m_buffer :: "u8 list option"
  m_isrInPos :: int
  m_isrOutPos :: int
  m_isrBufSize :: int
  m_isrBuffer :: "u32 list option"
  m_isrOverflow :: bool
  m_isrLastCycle :: u32
  m_rxCurBit :: int
  m_rxCurByte :: u8

subsection \<open>Faulting primitives\<close>

text \<open>\<^verbatim>\<open>a % b\<close> on \<^verbatim>\<open>int\<close>: truncating remainder, no result for \<open>b = 0\<close>.\<close>

definition c_mod :: "int \<Rightarrow> int \<Rightarrow> int option" where
  "c_mod a b = (if b = 0 then None else Some (a smod b))"

text \<open>\<^verbatim>\<open>a / b\<close> on \<^verbatim>\<open>int\<close>: truncating quotient, no result for \<open>b = 0\<close>.\<close>

definition c_div :: "int \<Rightarrow> int \<Rightarrow> int option" where
  "c_div a b = (if b = 0 then None else Some (a sdiv b))"

text \<open>\<^verbatim>\<open>p[i]\<close> read: \<open>p\<close> must be allocated and \<open>i\<close> inside the allocation.\<close>

definition buf_load :: "'a list option \<Rightarrow> int \<Rightarrow> 'a option" where
  "buf_load p i =
     (case p of None \<Rightarrow> None
      | Some xs \<Rightarrow> if 0 \<le> i \<and> i < int (length xs) then Some (xs ! nat i) else None)"

text \<open>\<^verbatim>\<open>p[i] = v\<close>: the updated allocation, under the same conditions.\<close>

definition buf_store :: "'a list option \<Rightarrow> int \<Rightarrow> 'a \<Rightarrow> 'a list option" where
  "buf_store p i v =
     (case p of None \<Rightarrow> None
      | Some xs \<Rightarrow> if 0 \<le> i \<and> i < int (length xs) then Some (xs[nat i := v]) else None)"

section \<open>Edge capture: the interrupt handler\<close>

text \<open>
  \<^verbatim>\<open>rxRead\<close> (lines 445-458). \<open>curCycle\<close> is the cycle counter and \<open>level\<close> the pin level
  read at the interrupt. The stamp's least significant bit carries the inverted level.
\<close>

definition rxRead :: "u32 \<Rightarrow> bool \<Rightarrow> sws \<Rightarrow> sws option" where
  "rxRead curCycle level s =
     (case c_mod (m_isrInPos s + 1) (m_isrBufSize s) of None \<Rightarrow> None
      | Some next \<Rightarrow>
          if next \<noteq> m_isrOutPos s then
            (case buf_store (m_isrBuffer s) (m_isrInPos s) ((curCycle OR 1) XOR of_bool level) of
               None \<Rightarrow> None
             | Some b \<Rightarrow> Some (s\<lparr>m_isrBuffer := Some b, m_isrInPos := next\<rparr>))
          else Some (s\<lparr>m_isrOverflow := True\<rparr>))"

section \<open>Receive reconstruction\<close>

text \<open>
  The body of the \<^verbatim>\<open>do ... while (cycles >= 0)\<close> loop of \<^verbatim>\<open>rxBits\<close> in three parts.
  \<open>hidden_fill\<close> is lines 404-407: the accumulator moves down by \<open>n\<close> bits and the bits
  that come in at the top repeat its former top bit.
\<close>

definition hidden_fill :: "nat \<Rightarrow> u8 \<Rightarrow> u8" where
  "hidden_fill n b =
     (let lastBit = (b AND 0x80 \<noteq> 0);
          shifted = drop_bit n b
      in if lastBit then shifted OR push_bit (8 - n) 0xff else shifted)"

text \<open>\<open>rx_hidden\<close> is lines 400-410: the bits masked by a level that did not change.\<close>

definition rx_hidden :: "int \<Rightarrow> sws \<Rightarrow> (int \<times> sws) option" where
  "rx_hidden cycles s =
     (if cycles \<ge> m_bitCycles s then
        (case c_div cycles (m_bitCycles s) of None \<Rightarrow> None
         | Some q \<Rightarrow>
             let hiddenBits = (if q > 7 - m_rxCurBit s then 7 - m_rxCurBit s else q) in
             if hiddenBits < 0 then None
             else Some (cycles - hiddenBits * m_bitCycles s,
                        s\<lparr>m_rxCurByte := hidden_fill (nat hiddenBits) (m_rxCurByte s),
                          m_rxCurBit := m_rxCurBit s + hiddenBits\<rparr>))
      else Some (cycles, s))"

text \<open>\<open>rx_shift\<close> is lines 411-416: one bit carrying the level of the edge.\<close>

definition rx_shift :: "bool \<Rightarrow> int \<Rightarrow> sws \<Rightarrow> int \<times> sws" where
  "rx_shift level cycles s =
     (if m_rxCurBit s < 7 then
        (cycles - m_bitCycles s,
         s\<lparr>m_rxCurBit := m_rxCurBit s + 1,
           m_rxCurByte := (let b = drop_bit 1 (m_rxCurByte s) in if level then b OR 0x80 else b)\<rparr>)
      else (cycles, s))"

text \<open>\<open>rx_store\<close> is lines 420-431: the completed byte goes to the byte ring unless it is full.\<close>

definition rx_store :: "sws \<Rightarrow> sws option" where
  "rx_store s =
     (case c_mod (m_inPos s + 1) (m_bufSize s) of None \<Rightarrow> None
      | Some next \<Rightarrow>
          if next \<noteq> m_outPos s then
            (case buf_store (m_buffer s) (m_inPos s) (m_rxCurByte s) of None \<Rightarrow> None
             | Some b \<Rightarrow>
                 Some (s\<lparr>m_rxCurBit := 8, m_buffer := Some b, m_rxCurByte := 0, m_inPos := next\<rparr>))
          else Some (s\<lparr>m_rxCurBit := 8, m_overflow := True\<rparr>))"

text \<open>
  The loop itself (lines 397-441). It is entered with \<open>cycles \<ge> 0\<close>; a \<^verbatim>\<open>continue\<close>
  re-tests \<^verbatim>\<open>cycles >= 0\<close>, the idle case leaves by \<^verbatim>\<open>break\<close>.
\<close>

function rx_bits_loop :: "bool \<Rightarrow> int \<Rightarrow> sws \<Rightarrow> sws option" where
  "rx_bits_loop level cycles s =
     (if - 1 \<le> m_rxCurBit s \<and> m_rxCurBit s < 7 then
        (case rx_hidden cycles s of None \<Rightarrow> None
         | Some (cycles1, s1) \<Rightarrow>
             (case rx_shift level cycles1 s1 of (cycles2, s2) \<Rightarrow>
                if cycles2 \<ge> 0 then rx_bits_loop level cycles2 s2 else Some s2))
      else if m_rxCurBit s = 7 then
        (case rx_store s of None \<Rightarrow> None
         | Some s1 \<Rightarrow>
             if cycles - m_bitCycles s \<ge> 0 then rx_bits_loop level (cycles - m_bitCycles s) s1
             else Some s1)
      else if m_rxCurBit s = 8 then
        Some (if \<not> level then s\<lparr>m_rxCurBit := - 1\<rparr> else s)
      else Some s)"
  by pat_completeness auto
termination
proof (relation "measure (\<lambda>(level, cycles, s). nat (9 - m_rxCurBit s))")
  show "wf (measure (\<lambda>(level, cycles, s). nat (9 - m_rxCurBit s)))" by simp
next
  fix level :: bool and cycles :: int and s :: sws and x2 x y x2a xa ya
  assume a: "- 1 \<le> m_rxCurBit s \<and> m_rxCurBit s < 7"
    and h: "rx_hidden cycles s = Some x2" "(x, y) = x2"
    and sh: "(xa, ya) = rx_shift level x y"
  from h have "rx_hidden cycles s = Some (x, y)" by simp
  then have 1: "m_rxCurBit s \<le> m_rxCurBit y \<and> m_rxCurBit y \<le> 7"
    using a by (auto simp: rx_hidden_def c_div_def Let_def split: if_splits)
  have 2: "m_rxCurBit ya = (if m_rxCurBit y < 7 then m_rxCurBit y + 1 else m_rxCurBit y)"
    using sh by (auto simp: rx_shift_def)
  from a 1 2 have "m_rxCurBit s < m_rxCurBit ya \<and> m_rxCurBit ya \<le> 9"
    by (auto split: if_splits)
  then show "((level, xa, ya), (level, cycles, s))
      \<in> measure (\<lambda>(level, cycles, s). nat (9 - m_rxCurBit s))"
    by simp
next
  fix level :: bool and cycles :: int and s s1 :: sws
  assume "m_rxCurBit s = 7" "rx_store s = Some s1"
  then show "((level, cycles - m_bitCycles s, s1), (level, cycles, s)) \<in> measure (\<lambda>(level, cycles, s). nat (9 - m_rxCurBit s))"
    by (auto simp: rx_store_def split: option.splits if_splits)
qed

text \<open>
  Lines 390 and 393: the consumer takes the oldest stamp and advances the read index.
\<close>

definition isr_take :: "sws \<Rightarrow> (u32 \<times> sws) option" where
  "isr_take s =
     (case buf_load (m_isrBuffer s) (m_isrOutPos s) of None \<Rightarrow> None
      | Some isrCycle \<Rightarrow>
          (case c_mod (m_isrOutPos s + 1) (m_isrBufSize s) of None \<Rightarrow> None
           | Some next \<Rightarrow> Some (isrCycle, s\<lparr>m_isrOutPos := next\<rparr>)))"

text \<open>
  One pass of the \<^verbatim>\<open>while (avail--)\<close> loop (lines 389-441): take the oldest stamp,
  drop the edge if it came less than half a bit period after the last accepted one,
  otherwise run the bit loop.
\<close>

definition rx_edge :: "sws \<Rightarrow> sws option" where
  "rx_edge s =
     (case isr_take s of None \<Rightarrow> None
      | Some (isrCycle, s1) \<Rightarrow>
          let level = (isrCycle AND 1 = of_bool (m_invert s1));
              cycles = sint (isrCycle - m_isrLastCycle s1) - m_bitCycles s1 sdiv 2
          in if cycles < 0 then Some s1
             else rx_bits_loop level cycles (s1\<lparr>m_isrLastCycle := isrCycle\<rparr>))"

fun rx_drain :: "nat \<Rightarrow> sws \<Rightarrow> sws option" where
  "rx_drain 0 s = Some s"
| "rx_drain (Suc n) s = (case rx_edge s of None \<Rightarrow> None | Some s1 \<Rightarrow> rx_drain n s1)"

text \<open>Lines 360-361: the number of stamps waiting in the edge ring.\<close>

definition isr_avail :: "sws \<Rightarrow> int" where
  "isr_avail s =
     (let avail = m_isrInPos s - m_isrOutPos s in
      if avail < 0 then avail + m_isrBufSize s else avail)"

text \<open>
  Lines 370-386: the stop bit that made no edge. \<open>now\<close> is the cycle counter; the result
  carries the updated \<^verbatim>\<open>avail\<close>.
\<close>

definition rx_recover :: "u32 \<Rightarrow> int \<Rightarrow> sws \<Rightarrow> (int \<times> sws) option" where
  "rx_recover now avail s =
     (if avail = 0 \<and> m_rxCurBit s < 8 \<and> m_isrInPos s = m_isrOutPos s \<and> m_rxCurBit s \<ge> 0 then
        let delta = now - m_isrLastCycle s;
            expectedDelta = (word_of_int ((10 - m_rxCurBit s) * m_bitCycles s) :: u32)
        in if delta \<ge> expectedDelta then
             (case c_mod (m_isrInPos s + 1) (m_isrBufSize s) of None \<Rightarrow> None
              | Some next \<Rightarrow>
                  if next \<noteq> m_isrOutPos s then
                    let expectedCycle = m_isrLastCycle s + expectedDelta in
                    (case buf_store (m_isrBuffer s) (m_isrInPos s)
                            ((expectedCycle OR 1) XOR of_bool (\<not> m_invert s)) of
                       None \<Rightarrow> None
                     | Some b \<Rightarrow> Some (avail + 1, s\<lparr>m_isrBuffer := Some b, m_isrInPos := next\<rparr>))
                  else Some (avail, s\<lparr>m_isrOverflow := True\<rparr>))
           else Some (avail, s)
      else Some (avail, s))"

text \<open>Lines 362-365: an edge overflow seen by the handler becomes the port's overflow.\<close>

definition take_flags :: "sws \<Rightarrow> sws" where
  "take_flags s =
     (if m_isrOverflow s then s\<lparr>m_overflow := True, m_isrOverflow := False\<rparr> else s)"

text \<open>\<^verbatim>\<open>rxBits\<close> (lines 359-443).\<close>

definition rxBits :: "u32 \<Rightarrow> sws \<Rightarrow> sws option" where
  "rxBits now s =
     (case rx_recover now (isr_avail s) (take_flags s) of None \<Rightarrow> None
      | Some (avail1, s2) \<Rightarrow> if avail1 < 0 then None else rx_drain (nat avail1) s2)"

section \<open>The consumer interface\<close>

text \<open>Lines 229-230: the consumer takes the oldest byte and advances the read index.\<close>

definition byte_take :: "sws \<Rightarrow> (u8 \<times> sws) option" where
  "byte_take s =
     (case buf_load (m_buffer s) (m_outPos s) of None \<Rightarrow> None
      | Some ch \<Rightarrow>
          (case c_mod (m_outPos s + 1) (m_bufSize s) of None \<Rightarrow> None
           | Some next \<Rightarrow> Some (ch, s\<lparr>m_outPos := next\<rparr>)))"

text \<open>\<^verbatim>\<open>read\<close> (lines 223-232); \<open>- 1\<close> is the no-data result.\<close>

definition read :: "u32 \<Rightarrow> sws \<Rightarrow> (int \<times> sws) option" where
  "read now s =
     (if \<not> m_rxValid s then Some (- 1, s)
      else
        (case (if m_inPos s = m_outPos s then rxBits now s else Some s) of None \<Rightarrow> None
         | Some s1 \<Rightarrow>
             if m_inPos s = m_outPos s \<and> m_inPos s1 = m_outPos s1 then Some (- 1, s1)
             else
               (case byte_take s1 of None \<Rightarrow> None
                | Some (ch, s2) \<Rightarrow> Some (uint ch, s2))))"

text \<open>Lines 237-238 and 242-243: the number of bytes waiting in the byte ring.\<close>

definition byte_avail :: "sws \<Rightarrow> int" where
  "byte_avail s =
     (let avail = m_inPos s - m_outPos s in
      if avail < 0 then avail + m_bufSize s else avail)"

text \<open>
  \<^verbatim>\<open>available\<close> (lines 234-246). \<open>now1\<close> and \<open>now2\<close> are the cycle counter at the two
  calls of \<^verbatim>\<open>rxBits\<close>; \<^verbatim>\<open>optimistic_yield\<close> between them only lets time pass.
\<close>

definition available :: "u32 \<Rightarrow> u32 \<Rightarrow> sws \<Rightarrow> (int \<times> sws) option" where
  "available now1 now2 s =
     (if \<not> m_rxValid s then Some (0, s)
      else
        (case rxBits now1 s of None \<Rightarrow> None
         | Some s1 \<Rightarrow>
             if byte_avail s1 = 0 then
               (case rxBits now2 s1 of None \<Rightarrow> None
                | Some s2 \<Rightarrow> Some (byte_avail s2, s2))
             else Some (byte_avail s1, s1)))"

text \<open>\<^verbatim>\<open>peek\<close> (lines 354-357).\<close>

definition peek :: "u32 \<Rightarrow> sws \<Rightarrow> (int \<times> sws) option" where
  "peek now s =
     (if \<not> m_rxValid s then Some (- 1, s)
      else
        (case rxBits now s of None \<Rightarrow> None
         | Some s1 \<Rightarrow>
             if m_inPos s1 = m_outPos s1 then Some (- 1, s1)
             else
               (case buf_load (m_buffer s1) (m_outPos s1) of None \<Rightarrow> None
                | Some ch \<Rightarrow> Some (uint ch, s1))))"

text \<open>\<^verbatim>\<open>flush\<close> (lines 342-346).\<close>

definition flush :: "sws \<Rightarrow> sws" where
  "flush s = s\<lparr>m_inPos := 0, m_outPos := 0, m_isrInPos := 0, m_isrOutPos := 0\<rparr>"

text \<open>\<^verbatim>\<open>overflow\<close> (lines 348-352).\<close>

definition overflow :: "sws \<Rightarrow> bool \<times> sws" where
  "overflow s = (m_overflow s, s\<lparr>m_overflow := False\<rparr>)"

section \<open>The GPIO layer and the mode controller\<close>

datatype pin_mode = INPUT_PULLUP | OUTPUT

text \<open>
  The calls into the platform. \<open>AttachInterrupt pin i\<close> attaches the handler of slot \<open>i\<close>
  (\<^verbatim>\<open>ISRList[i]\<close>) to both edges of the pin. \<open>DelayMicroseconds n\<close> is the call
  \<^verbatim>\<open>delayMicroseconds(n)\<close>. \<open>SpinUntil d\<close> is not a call: it stands for the closing loop of
  \<^verbatim>\<open>preciseDelay\<close> (line 257), which reads the cycle counter until it is within a cycle
  of \<open>d\<close>.
\<close>

datatype hw_event =
    PinMode int pin_mode
  | DigitalWrite int bool
  | AttachInterrupt int int
  | DetachInterrupt int
  | NoInterrupts
  | Interrupts
  | DelayMicroseconds int
  | SpinUntil u32

datatype platform = ESP8266 | ESP32

text \<open>\<^verbatim>\<open>MAX_SWS_INSTS\<close> (lines 34-38).\<close>

fun MAX_SWS_INSTS :: "platform \<Rightarrow> nat" where
  "MAX_SWS_INSTS ESP8266 = 10"
| "MAX_SWS_INSTS ESP32 = 22"

text \<open>\<^verbatim>\<open>isValidGPIOpin\<close> (lines 105-113).\<close>

fun isValidGPIOpin :: "platform \<Rightarrow> int \<Rightarrow> bool" where
  "isValidGPIOpin ESP8266 pin \<longleftrightarrow> (pin \<ge> 0 \<and> pin \<le> 5) \<or> (pin \<ge> 12 \<and> pin \<le> 15)"
| "isValidGPIOpin ESP32 pin \<longleftrightarrow>
     pin = 0 \<or> pin = 2 \<or> (pin \<ge> 4 \<and> pin \<le> 5) \<or> (pin \<ge> 12 \<and> pin \<le> 19) \<or>
     (pin \<ge> 21 \<and> pin \<le> 23) \<or> (pin \<ge> 25 \<and> pin \<le> 27) \<or> (pin \<ge> 32 \<and> pin \<le> 35)"

text \<open>
  The constructor (lines 75-93). \<open>dflt\<close> is the object as the default member
  initialisers leave it; \<open>alloc8 n\<close> and \<open>alloc32 n\<close> are the results of the two
  \<^verbatim>\<open>malloc\<close> calls for \<open>n\<close> elements (\<open>None\<close> is the null pointer).
\<close>

definition SoftwareSerial ::
  "platform \<Rightarrow> sws \<Rightarrow> (int \<Rightarrow> u8 list option) \<Rightarrow> (int \<Rightarrow> u32 list option) \<Rightarrow>
   int \<Rightarrow> int \<Rightarrow> bool \<Rightarrow> int \<Rightarrow> int \<Rightarrow> sws" where
  "SoftwareSerial pf dflt alloc8 alloc32 receivePin transmitPin inverse_logic bufSize isrBufSize =
     (let s1 = dflt\<lparr>m_isrBuffer := None, m_isrOverflow := False, m_isrLastCycle := 0,
                    m_oneWire := (receivePin = transmitPin), m_invert := inverse_logic\<rparr>;
          s2 = (if isValidGPIOpin pf receivePin then
                  let n = (if isrBufSize \<noteq> 0 then isrBufSize else 10 * bufSize) in
                  s1\<lparr>m_rxPin := receivePin, m_bufSize := bufSize, m_buffer := alloc8 bufSize,
                     m_isrBufSize := n, m_isrBuffer := alloc32 n\<rparr>
                else s1)
      in if isValidGPIOpin pf transmitPin \<or> (\<not> m_oneWire s2 \<and> transmitPin = 16) then
           s2\<lparr>m_txValid := True, m_txPin := transmitPin\<rparr>
         else s2)"

text \<open>\<^verbatim>\<open>enableRx\<close> (lines 211-221).\<close>

definition enableRx :: "bool \<Rightarrow> sws \<Rightarrow> sws \<times> hw_event list" where
  "enableRx on s =
     (if m_rxValid s then
        if on then
          (s\<lparr>m_rxCurBit := 8, m_rxEnabled := on\<rparr>, [AttachInterrupt (m_rxPin s) (m_swsInstsIdx s)])
        else (s\<lparr>m_rxEnabled := on\<rparr>, [DetachInterrupt (m_rxPin s)])
      else (s, []))"

text \<open>\<^verbatim>\<open>enableTx\<close> (lines 182-209), with \<^verbatim>\<open>ALT_DIGITAL_WRITE\<close> defined (line 29).\<close>

definition enableTx :: "bool \<Rightarrow> sws \<Rightarrow> sws \<times> hw_event list" where
  "enableTx on s =
     (if m_oneWire s \<and> m_txValid s then
        if on then
          (case enableRx False s of (s1, e1) \<Rightarrow>
             (s1, e1 @ [DigitalWrite (m_txPin s1) False,
                        PinMode (m_txPin s1) (if m_invert s1 then OUTPUT else INPUT_PULLUP),
                        DigitalWrite (m_rxPin s1) False,
                        PinMode (m_rxPin s1) (if m_invert s1 then OUTPUT else INPUT_PULLUP)]))
        else
          (case enableRx True s of (s1, e1) \<Rightarrow>
             (s1, [DigitalWrite (m_txPin s) False,
                   PinMode (m_txPin s) (if m_invert s then OUTPUT else INPUT_PULLUP),
                   PinMode (m_rxPin s) INPUT_PULLUP] @ e1))
      else (s, []))"

text \<open>\<^verbatim>\<open>setTransmitEnablePin\<close> (lines 162-176) and \<^verbatim>\<open>enableIntTx\<close> (lines 178-180).\<close>

definition setTransmitEnablePin :: "platform \<Rightarrow> int \<Rightarrow> sws \<Rightarrow> sws \<times> hw_event list" where
  "setTransmitEnablePin pf transmitEnablePin s =
     (if isValidGPIOpin pf transmitEnablePin then
        (s\<lparr>m_txEnableValid := True, m_txEnablePin := transmitEnablePin\<rparr>,
         [DigitalWrite transmitEnablePin False, PinMode transmitEnablePin OUTPUT])
      else (s\<lparr>m_txEnableValid := False\<rparr>, []))"

definition enableIntTx :: "bool \<Rightarrow> sws \<Rightarrow> sws" where
  "enableIntTx on s = s\<lparr>m_intTxEnabled := on\<rparr>"

subsection \<open>Registration\<close>

text \<open>
  \<^verbatim>\<open>ObjList\<close> (line 42) is a list of \<^verbatim>\<open>MAX_SWS_INSTS\<close> slots, each empty or holding the
  identity of an object. \<open>first_free\<close> is the search of lines 117-124.
\<close>

fun first_free :: "nat \<Rightarrow> 'a option list \<Rightarrow> nat option" where
  "first_free i [] = None"
| "first_free i (x # xs) = (if x = None then Some i else first_free (Suc i) xs)"

text \<open>
  \<^verbatim>\<open>begin\<close> (lines 115-147) in three parts. \<open>begin_claim\<close> is lines 116-124: an
  object without a slot takes the first free one. \<open>this\<close> is the identity of the object.
\<close>

definition begin_claim :: "'a \<Rightarrow> 'a option list \<Rightarrow> sws \<Rightarrow> 'a option list \<times> sws" where
  "begin_claim this ObjList s =
     (if m_swsInstsIdx s < 0 then
        (case first_free 0 ObjList of None \<Rightarrow> (ObjList, s)
         | Some i \<Rightarrow> (ObjList[i := Some this], s\<lparr>m_swsInstsIdx := int i\<rparr>))
      else (ObjList, s))"

text \<open>
  \<open>begin_arm\<close> is lines 126-145 for the bit period computed at line 126, with
  \<^verbatim>\<open>ALT_DIGITAL_WRITE\<close> defined.
\<close>

definition begin_arm :: "int \<Rightarrow> sws \<Rightarrow> sws \<times> hw_event list" where
  "begin_arm bitCycles s =
     (let s1 = s\<lparr>m_bitCycles := bitCycles, m_intTxEnabled := True\<rparr>;
          rx = (m_buffer s1 \<noteq> None \<and> m_isrBuffer s1 \<noteq> None);
          s2 = (if rx then s1\<lparr>m_rxValid := True, m_inPos := 0, m_outPos := 0,
                              m_isrInPos := 0, m_isrOutPos := 0\<rparr> else s1);
          e2 = (if rx then [PinMode (m_rxPin s1) INPUT_PULLUP] else []);
          e3 = (if m_txValid s2 \<and> \<not> m_oneWire s2 then
                  [DigitalWrite (m_txPin s2) False,
                   PinMode (m_txPin s2) (if m_invert s2 then OUTPUT else INPUT_PULLUP)]
                else [])
      in if \<not> m_rxEnabled s2 then
           (fst (enableRx True s2), e2 @ e3 @ snd (enableRx True s2))
         else (s2, e2 @ e3))"

text \<open>
  \<^verbatim>\<open>begin\<close> itself. \<open>cpuMHz\<close> is \<^verbatim>\<open>ESP.getCpuFreqMHz()\<close>; the result is the return value,
  the table, the object and the GPIO calls.
\<close>

definition begin_sws ::
  "int \<Rightarrow> 'a \<Rightarrow> int \<Rightarrow> 'a option list \<Rightarrow> sws \<Rightarrow> (bool \<times> 'a option list \<times> sws \<times> hw_event list) option" where
  "begin_sws cpuMHz this baud ObjList s =
     (case begin_claim this ObjList s of
        (ObjList1, s1) \<Rightarrow>
          if m_swsInstsIdx s1 < 0 then Some (False, ObjList1, s1, [])
          else
            (case c_div (cpuMHz * 1000000) baud of None \<Rightarrow> None
             | Some bitCycles \<Rightarrow>
                 (case begin_arm bitCycles s1 of
                    (s2, ev) \<Rightarrow> Some (True, ObjList1, s2, ev))))"

text \<open>\<^verbatim>\<open>end\<close> (lines 149-156).\<close>

definition end_sws :: "'a option list \<Rightarrow> sws \<Rightarrow> 'a option list \<times> sws \<times> hw_event list" where
  "end_sws ObjList s =
     (case enableRx False s of (s1, e1) \<Rightarrow>
        if m_swsInstsIdx s1 \<ge> 0 then
          (ObjList[nat (m_swsInstsIdx s1) := None], s1\<lparr>m_swsInstsIdx := - 1\<rparr>, e1)
        else (ObjList, s1, e1))"

text \<open>\<^verbatim>\<open>baudRate\<close> (lines 158-160).\<close>

definition baudRate :: "int \<Rightarrow> sws \<Rightarrow> int option" where
  "baudRate cpuMHz s = c_div (cpuMHz * 1000000) (m_bitCycles s)"

section \<open>The transmit engine\<close>

text \<open>
  The environment of a transmission: \<open>cpuMHz\<close> is \<^verbatim>\<open>ESP.getCpuFreqMHz()\<close>, and \<open>clk k\<close> is
  what \<^verbatim>\<open>ESP.getCycleCount()\<close> returns at line 249 in the call of \<^verbatim>\<open>preciseDelay\<close> that
  \<open>k\<close> calls have preceded since \<^verbatim>\<open>write\<close> was entered.

  \<^verbatim>\<open>preciseDelay\<close> (lines 248-258) for the reading \<open>now\<close> of the cycle counter at line
  249: the calls it makes. The division of line 249 has no result for \<open>cpuMHz = 0\<close>.
\<close>

definition preciseDelay :: "int \<Rightarrow> u32 \<Rightarrow> u32 \<Rightarrow> sws \<Rightarrow> hw_event list option" where
  "preciseDelay cpuMHz now deadline s =
     (case c_div (sint (deadline - now)) cpuMHz of None \<Rightarrow> None
      | Some micro_s \<Rightarrow>
          Some ((if \<not> m_intTxEnabled s then [Interrupts] else []) @
                (if micro_s > 1 then [DelayMicroseconds (micro_s - 1)] else []) @
                (if \<not> m_intTxEnabled s then [NoInterrupts] else []) @ [SpinUntil deadline]))"

text \<open>
  \<^verbatim>\<open>writePeriod\<close> (lines 260-279), with \<^verbatim>\<open>ALT_DIGITAL_WRITE\<close> defined. \<open>k\<close> counts the calls
  of \<^verbatim>\<open>preciseDelay\<close> made so far; the result carries the new count.
\<close>

definition writePeriod ::
  "int \<Rightarrow> (nat \<Rightarrow> u32) \<Rightarrow> u32 \<Rightarrow> u32 \<Rightarrow> nat \<Rightarrow> sws \<Rightarrow> (nat \<times> sws \<times> hw_event list) option" where
  "writePeriod cpuMHz clk dutyCycle offCycle k s =
     (case (if dutyCycle \<noteq> 0 then
              let s1 = s\<lparr>m_periodDeadline := m_periodDeadline s + dutyCycle\<rparr> in
              (case preciseDelay cpuMHz (clk k) (m_periodDeadline s1) s1 of None \<Rightarrow> None
               | Some e \<Rightarrow> Some (Suc k, s1, PinMode (m_txPin s1) INPUT_PULLUP # e))
            else Some (k, s, [])) of
        None \<Rightarrow> None
      | Some (k1, s1, e1) \<Rightarrow>
          if offCycle \<noteq> 0 then
            let s2 = s1\<lparr>m_periodDeadline := m_periodDeadline s1 + offCycle\<rparr> in
            (case preciseDelay cpuMHz (clk k1) (m_periodDeadline s2) s2 of None \<Rightarrow> None
             | Some e \<Rightarrow> Some (Suc k1, s2, e1 @ PinMode (m_txPin s2) OUTPUT # e))
          else Some (k1, s1, e1))"

text \<open>
  The inner loop of \<^verbatim>\<open>write\<close> (lines 314-325). \<open>write_bit i\<close> is its body for bit \<open>i\<close>
  on the loop state \<open>(dutyCycle, offCycle, pb, o)\<close>, the count of \<^verbatim>\<open>preciseDelay\<close> calls,
  the object and the calls made so far; \<open>write_bits\<close> runs it for \<open>i = 0, ..., 8\<close>.
\<close>

type_synonym tx_state = "u32 \<times> u32 \<times> bool \<times> u8 \<times> nat \<times> sws \<times> hw_event list"

definition write_bit :: "int \<Rightarrow> (nat \<Rightarrow> u32) \<Rightarrow> nat \<Rightarrow> tx_state \<Rightarrow> tx_state option" where
  "write_bit cpuMHz clk i st =
     (case st of (dutyCycle, offCycle, pb, o_byte, k, s, ev) \<Rightarrow>
        let b = (if i < 8 then o_byte AND 1 \<noteq> 0 else \<not> m_invert s);
            o1 = drop_bit 1 o_byte
        in (case (if \<not> pb \<and> b then
                    (case writePeriod cpuMHz clk dutyCycle offCycle k s of None \<Rightarrow> None
                     | Some (k1, s1, e) \<Rightarrow> Some (0, 0, k1, s1, ev @ e))
                  else Some (dutyCycle, offCycle, k, s, ev)) of
              None \<Rightarrow> None
            | Some (d1, f1, k1, s1, ev1) \<Rightarrow>
                Some (if b then d1 + word_of_int (m_bitCycles s1) else d1,
                      if b then f1 else f1 + word_of_int (m_bitCycles s1),
                      b, o1, k1, s1, ev1)))"

definition write_bits :: "int \<Rightarrow> (nat \<Rightarrow> u32) \<Rightarrow> tx_state \<Rightarrow> tx_state option" where
  "write_bits cpuMHz clk st =
     fold (\<lambda>i r. case r of None \<Rightarrow> None | Some st1 \<Rightarrow> write_bit cpuMHz clk i st1) [0..<9] (Some st)"

text \<open>
  The outer loop (lines 308-330) over the bytes still to be sent; the last byte
  flushes the pending period and leaves by \<^verbatim>\<open>break\<close>.
\<close>

fun write_bytes ::
  "int \<Rightarrow> (nat \<Rightarrow> u32) \<Rightarrow> u8 list \<Rightarrow> u32 \<Rightarrow> u32 \<Rightarrow> nat \<Rightarrow> sws \<Rightarrow> hw_event list \<Rightarrow>
   (sws \<times> hw_event list) option" where
  "write_bytes cpuMHz clk [] dutyCycle offCycle k s ev = Some (s, ev)"
| "write_bytes cpuMHz clk (x # xs) dutyCycle offCycle k s ev =
     (case write_bits cpuMHz clk
             (if m_invert s then dutyCycle + word_of_int (m_bitCycles s) else dutyCycle,
              if m_invert s then offCycle else offCycle + word_of_int (m_bitCycles s),
              m_invert s, if m_invert s then NOT x else x, k, s, ev) of
        None \<Rightarrow> None
      | Some (d1, f1, pb1, o1, k1, s1, ev1) \<Rightarrow>
          if xs = [] then
            (case writePeriod cpuMHz clk d1 f1 k1 s1 of None \<Rightarrow> None
             | Some (k2, s2, e) \<Rightarrow> Some (s2, ev1 @ e))
          else write_bytes cpuMHz clk xs d1 f1 k1 s1 ev1)"

text \<open>
  \<^verbatim>\<open>write\<close> (lines 285-340), with \<^verbatim>\<open>ALT_DIGITAL_WRITE\<close> defined. \<open>buffer\<close> holds the \<open>size\<close>
  bytes; \<open>now_rx\<close> is the cycle counter read by \<^verbatim>\<open>rxBits\<close>, \<open>now\<close> the one that starts
  the deadline (line 307). The result is the return value, the object and the calls.
\<close>

definition write_sws ::
  "int \<Rightarrow> (nat \<Rightarrow> u32) \<Rightarrow> u32 \<Rightarrow> u32 \<Rightarrow> u8 list \<Rightarrow> sws \<Rightarrow> (nat \<times> sws \<times> hw_event list) option" where
  "write_sws cpuMHz clk now_rx now buffer s =
     (case (if m_rxValid s then rxBits now_rx s else Some s) of None \<Rightarrow> None
      | Some s1 \<Rightarrow>
          if \<not> m_txValid s1 then Some (0, s1, [])
          else
            let e1 = (if m_txEnableValid s1 then [PinMode (m_txEnablePin s1) INPUT_PULLUP] else []) @
                     [PinMode (m_txPin s1) (if m_invert s1 then OUTPUT else INPUT_PULLUP)] @
                     (if \<not> m_intTxEnabled s1 then [NoInterrupts] else []);
                s2 = s1\<lparr>m_periodDeadline := now\<rparr>
            in (case write_bytes cpuMHz clk buffer 0 0 0 s2 e1 of None \<Rightarrow> None
                | Some (s3, e2) \<Rightarrow>
                    Some (length buffer, s3,
                          e2 @ (if \<not> m_intTxEnabled s3 then [Interrupts] else []) @
                          (if m_txEnableValid s3 then [PinMode (m_txEnablePin s3) OUTPUT] else []))))"

section \<open>The line between two ports\<close>


fun wire_edges :: "int \<Rightarrow> bool \<Rightarrow> u32 \<Rightarrow> hw_event list \<Rightarrow> (u32 \<times> bool) list" where
  "wire_edges pin lvl t [] = []"
| "wire_edges pin lvl t (PinMode p m # es) =
     (if p = pin then
        (if (m = INPUT_PULLUP) \<noteq> lvl then [(t, m = INPUT_PULLUP)] else []) @
        wire_edges pin (m = INPUT_PULLUP) t es
      else wire_edges pin lvl t es)"
| "wire_edges pin lvl t (SpinUntil d # es) = wire_edges pin lvl d es"
| "wire_edges pin lvl t (e # es) = wire_edges pin lvl t es"


text \<open>The receiving port takes one interrupt per edge, in order.\<close>

fun isr_feed :: "(u32 \<times> bool) list \<Rightarrow> sws \<Rightarrow> sws option" where
  "isr_feed [] s = Some s"
| "isr_feed ((t, l) # es) s =
     (case rxRead t l s of None \<Rightarrow> None | Some s1 \<Rightarrow> isr_feed es s1)"

section \<open>Scenario objects\<close>

text \<open>
  An object before its constructor has run, with every flag the constructor does not
  set false, no slot and null buffers. Only the scenarios below use it.
\<close>

definition sws_default :: sws where
  "sws_default =
     \<lparr>m_oneWire = False, m_rxPin = 0, m_txPin = 0, m_txEnablePin = 0, m_rxValid = False,
      m_rxEnabled = False, m_txValid = False, m_txEnableValid = False, m_invert = False,
      m_overflow = False, m_swsInstsIdx = - 1, m_bitCycles = 0, m_periodDeadline = 0,
      m_intTxEnabled = False, m_inPos = 0, m_outPos = 0, m_bufSize = 0, m_buffer = None,
      m_isrInPos = 0, m_isrOutPos = 0, m_isrBufSize = 0, m_isrBuffer = None,
      m_isrOverflow = False, m_isrLastCycle = 0, m_rxCurBit = 0, m_rxCurByte = 0\<rparr>"

text \<open>An allocation that succeeds (with a zeroed block) and one that fails.\<close>

definition calloc :: "int \<Rightarrow> ('a::zero) list option" where
  "calloc n = Some (replicate (nat n) 0)"

definition no_mem :: "int \<Rightarrow> 'a list option" where
  "no_mem n = None"

definition empty_table :: "nat option list" where
  "empty_table = replicate (MAX_SWS_INSTS ESP8266) None"

definition full_table :: "nat option list" where
  "full_table = map Some [1..<Suc (MAX_SWS_INSTS ESP8266)]"

text \<open>
  \<open>started s\<close>: the object \<open>s\<close> after \<^verbatim>\<open>begin(9600)\<close> on an ESP8266 clocked at 80 MHz,
  as object 0 and the first to register.
\<close>

definition started :: "sws \<Rightarrow> sws" where
  "started s =
     (case begin_sws 80 (0::nat) 9600 empty_table s of
        Some (ok, tbl, s1, ev) \<Rightarrow> s1 | None \<Rightarrow> s)"

text \<open>
  Two ports on two chips, the transmit pin 5 of the first wired to the receive pin 14 of
  the second, both with a byte ring of 4 and an edge ring of 16 slots, not inverted.
\<close>

definition loop_tx :: sws where
  "loop_tx = started (SoftwareSerial ESP8266 sws_default calloc calloc 4 5 False 4 16)"

definition loop_rx :: sws where
  "loop_rx = started (SoftwareSerial ESP8266 sws_default calloc calloc 14 12 False 4 16)"

text \<open>
  A cycle counter that returns the readings \<open>rs\<close> in turn. In \<open>tx_clock\<close> they are those of
  a transmission of the byte \<open>0x41\<close> that starts at cycle 1000000: each delay is entered
  40 cycles after the wait before it has ended.
\<close>

definition readings :: "u32 list \<Rightarrow> nat \<Rightarrow> u32" where
  "readings rs k = (if k < length rs then rs ! k else 0)"

definition tx_clock :: "nat \<Rightarrow> u32" where
  "tx_clock = readings [1000040, 1008373, 1016706, 1058371, 1066704, 1075037]"


text \<open>A port whose receive pin (9) is not a valid GPIO pin, and one whose transmit pin is not.\<close>

definition tx_only :: sws where
  "tx_only = started (SoftwareSerial ESP8266 sws_default calloc calloc 9 5 False 4 16)"

definition rx_only :: sws where
  "rx_only = started (SoftwareSerial ESP8266 sws_default calloc calloc 14 9 False 4 16)"

text \<open>A port both of whose allocations failed.\<close>

definition port_nomem :: sws where
  "port_nomem = SoftwareSerial ESP8266 sws_default no_mem no_mem 14 12 False 64 0"

text \<open>
  \<open>loop_rx\<close> in the middle of a byte: the start bit fell at cycle 1000000, the line rose
  one bit period later and has not moved since (the byte \<open>0xFF\<close> on the line); both edges
  have been decoded at cycle 1010000.
\<close>

definition rx_midbyte :: sws where
  "rx_midbyte =
     (case isr_feed [(1000000, False), (1008333, True)] loop_rx of
        Some s \<Rightarrow> (case rxBits 1010000 s of Some s1 \<Rightarrow> s1 | None \<Rightarrow> s)
      | None \<Rightarrow> loop_rx)"

text \<open>\<open>loop_rx\<close> right after the start bit alone has been decoded.\<close>

definition rx_startbit :: sws where
  "rx_startbit =
     (case isr_feed [(1000000, False)] loop_rx of
        Some s \<Rightarrow> (case rxBits 1001000 s of Some s1 \<Rightarrow> s1 | None \<Rightarrow> s)
      | None \<Rightarrow> loop_rx)"

text \<open>
  \<open>rx_midbyte\<close> after one more interrupt: the line fell again exactly three bit periods
  after it rose. The edge is still in the edge ring.
\<close>

definition rx_three_wide :: sws where
  "rx_three_wide = (case rxRead 1033332 False rx_midbyte of Some s \<Rightarrow> s | None \<Rightarrow> rx_midbyte)"

text \<open>
  The edges on the line, at a bit period of 8333 cycles, of the byte \<open>0x00\<close> sent from
  cycle \<open>t\<close> on (the line falls for the start bit and rises nine periods later for the
  stop bit) and of the byte \<open>0xFF\<close> (the line falls for the start bit, rises one period
  later and stays high through the stop bit).
\<close>

definition zero_frame :: "u32 \<Rightarrow> (u32 \<times> bool) list" where
  "zero_frame t = [(t, False), (t + 9 * 8333, True)]"

definition ones_frame :: "u32 \<Rightarrow> (u32 \<times> bool) list" where
  "ones_frame t = [(t, False), (t + 8333, True)]"

text \<open>
  The edges \<open>loop_tx\<close> puts on its transmit pin when it writes \<open>buf\<close> from cycle \<open>t\<close> on,
  its delays entered at the readings \<open>rs\<close>.
\<close>

definition tx_edges :: "u32 list \<Rightarrow> u32 \<Rightarrow> u8 list \<Rightarrow> (u32 \<times> bool) list" where
  "tx_edges rs t buf =
     (case write_sws 80 (readings rs) t t buf loop_tx of
        Some (n, s, ev) \<Rightarrow> wire_edges 5 True t ev | None \<Rightarrow> [])"

text \<open>
  A receiving port like \<open>loop_rx\<close> with a byte ring of 2 slots, which holds one byte.
\<close>

definition narrow_rx :: sws where
  "narrow_rx = started (SoftwareSerial ESP8266 sws_default calloc calloc 14 12 False 2 16)"

text \<open>
  \<open>narrow_rx\<close> after a byte was lost to a full byte ring: the bytes \<open>0x00\<close> and \<open>0xFF\<close>
  arrive from cycles 1000000 and 1100000 on; \<^verbatim>\<open>available\<close> at cycle 1120000 decodes the
  four edges and stores \<open>0x00\<close>, which fills the ring; \<^verbatim>\<open>peek\<close> at cycle 1300000 makes up
  the stop bit of \<open>0xFF\<close> and finds no room for the byte; \<^verbatim>\<open>read\<close> then takes \<open>0x00\<close>
  and leaves the ring empty.
\<close>

definition rx_overflowed :: sws where
  "rx_overflowed =
     (case isr_feed (zero_frame 1000000 @ ones_frame 1100000) narrow_rx of
        None \<Rightarrow> narrow_rx
      | Some s0 \<Rightarrow>
          (case available 1120000 1120100 s0 of None \<Rightarrow> s0
           | Some (n, s1) \<Rightarrow>
               (case peek 1300000 s1 of None \<Rightarrow> s1
                | Some (c, s2) \<Rightarrow>
                    (case read 1310000 s2 of None \<Rightarrow> s2 | Some (ch, s3) \<Rightarrow> s3))))"

text \<open>
  \<open>rx_midbyte\<close> after reception was switched on again (\<^verbatim>\<open>enableRx(true)\<close>) in the middle
  of the byte.
\<close>

definition rx_reenabled :: sws where
  "rx_reenabled = fst (enableRx True rx_midbyte)"

text \<open>
  What \<^verbatim>\<open>read\<close> at cycle \<open>now\<close> returns on the port \<open>s\<close> once the edges \<open>es\<close> have been
  captured.
\<close>

definition read_after :: "(u32 \<times> bool) list \<Rightarrow> u32 \<Rightarrow> sws \<Rightarrow> int option" where
  "read_after es now s =
     (case isr_feed es s of None \<Rightarrow> None
      | Some s1 \<Rightarrow> map_option fst (read now s1))"

section \<open>Well-formed receive state\<close>

text \<open>
  What \<^verbatim>\<open>begin\<close> establishes for a port whose allocations succeeded with positive
  sizes and whose baud rate does not exceed the clock: a positive bit period, both
  rings allocated with their recorded sizes, and all four indices inside their ring.
  \<open>alloc_len p\<close> is the number of elements of the allocation \<open>p\<close>, and \<open>- 1\<close> for the
  null pointer.
\<close>

definition alloc_len :: "'a list option \<Rightarrow> int" where
  "alloc_len p = (case p of None \<Rightarrow> - 1 | Some xs \<Rightarrow> int (length xs))"

definition rx_wf :: "sws \<Rightarrow> bool" where
  "rx_wf s \<longleftrightarrow>
     0 < m_bitCycles s \<and>
     alloc_len (m_buffer s) = m_bufSize s \<and> alloc_len (m_isrBuffer s) = m_isrBufSize s \<and>
     0 \<le> m_inPos s \<and> m_inPos s < m_bufSize s \<and>
     0 \<le> m_outPos s \<and> m_outPos s < m_bufSize s \<and>
     0 \<le> m_isrInPos s \<and> m_isrInPos s < m_isrBufSize s \<and>
     0 \<le> m_isrOutPos s \<and> m_isrOutPos s < m_isrBufSize s"

section \<open>Frames\<close>

text \<open>The two rings of \<open>s'\<close> are those of \<open>s\<close>: same allocations, sizes and indices.\<close>

definition same_rings :: "sws \<Rightarrow> sws \<Rightarrow> bool" where
  "same_rings s s' \<longleftrightarrow>
     m_buffer s' = m_buffer s \<and> m_bufSize s' = m_bufSize s \<and>
     m_inPos s' = m_inPos s \<and> m_outPos s' = m_outPos s \<and>
     m_isrBuffer s' = m_isrBuffer s \<and> m_isrBufSize s' = m_isrBufSize s \<and>
     m_isrInPos s' = m_isrInPos s \<and> m_isrOutPos s' = m_isrOutPos s"

definition is_attach :: "hw_event \<Rightarrow> bool" where
  "is_attach e = (case e of AttachInterrupt p i \<Rightarrow> True | _ \<Rightarrow> False)"

text \<open>
  The fields \<^verbatim>\<open>rxBits\<close> never assigns: the configuration, the transmit side, the sizes of
  the rings and the read index of the byte ring.
\<close>

definition rx_keeps :: "sws \<Rightarrow> sws \<Rightarrow> bool" where
  "rx_keeps s s' \<longleftrightarrow>
     m_oneWire s' = m_oneWire s \<and> m_rxPin s' = m_rxPin s \<and> m_txPin s' = m_txPin s \<and>
     m_txEnablePin s' = m_txEnablePin s \<and> m_rxValid s' = m_rxValid s \<and>
     m_rxEnabled s' = m_rxEnabled s \<and> m_txValid s' = m_txValid s \<and>
     m_txEnableValid s' = m_txEnableValid s \<and> m_invert s' = m_invert s \<and>
     m_swsInstsIdx s' = m_swsInstsIdx s \<and> m_bitCycles s' = m_bitCycles s \<and>
     m_periodDeadline s' = m_periodDeadline s \<and> m_intTxEnabled s' = m_intTxEnabled s \<and>
     m_outPos s' = m_outPos s \<and> m_bufSize s' = m_bufSize s \<and>
     m_isrBufSize s' = m_isrBufSize s"

text \<open>The drain loop moreover never assigns the producer's side of the edge ring.\<close>

definition decode_keeps :: "sws \<Rightarrow> sws \<Rightarrow> bool" where
  "decode_keeps s s' \<longleftrightarrow>
     rx_keeps s s' \<and> m_isrInPos s' = m_isrInPos s \<and> m_isrBuffer s' = m_isrBuffer s \<and>
     m_isrOverflow s' = m_isrOverflow s"

text \<open>A transmission assigns no field of the object but \<open>m_periodDeadline\<close>.\<close>

definition tx_keeps :: "sws \<Rightarrow> sws \<Rightarrow> bool" where
  "tx_keeps s s' \<longleftrightarrow> s' = s\<lparr>m_periodDeadline := m_periodDeadline s'\<rparr>"

section \<open>The stop bit that made no edge\<close>

text \<open>
  \<open>synth_due now s\<close>: the tests of lines 370 and 373 for the cycle counter \<open>now\<close>.
  \<open>synth_stamp\<close> is \<^verbatim>\<open>expectedCycle\<close> of line 378, and \<open>pending_byte\<close> the accumulator
  once the data bits still missing have been filled in as hidden bits.
\<close>

definition synth_due :: "u32 \<Rightarrow> sws \<Rightarrow> bool" where
  "synth_due now s \<longleftrightarrow>
     isr_avail s = 0 \<and> m_rxCurBit s < 8 \<and> m_isrInPos s = m_isrOutPos s \<and> m_rxCurBit s \<ge> 0 \<and>
     word_of_int ((10 - m_rxCurBit s) * m_bitCycles s) \<le> now - m_isrLastCycle s"

definition synth_stamp :: "sws \<Rightarrow> u32" where
  "synth_stamp s = m_isrLastCycle s + word_of_int ((10 - m_rxCurBit s) * m_bitCycles s)"

definition pending_byte :: "sws \<Rightarrow> u8" where
  "pending_byte s = hidden_fill (nat (7 - m_rxCurBit s)) (m_rxCurByte s)"

section \<open>Sequences of ring operations\<close>

text \<open>
  A ring is full when the index after the write index is the read index (lines 376-377,
  423-424 and 451-452).
\<close>

definition isr_full :: "sws \<Rightarrow> bool" where
  "isr_full s \<longleftrightarrow> c_mod (m_isrInPos s + 1) (m_isrBufSize s) = Some (m_isrOutPos s)"

definition byte_full :: "sws \<Rightarrow> bool" where
  "byte_full s \<longleftrightarrow> c_mod (m_inPos s + 1) (m_bufSize s) = Some (m_outPos s)"

text \<open>
  The four operations on the two rings: the handler captures an edge (\<open>rxRead\<close>), the
  drain loop takes one as long as the count of line 360 is not zero (\<open>isr_take\<close>), the
  bit loop stores the accumulator (\<open>rx_store\<close>), and \<^verbatim>\<open>read\<close> takes a byte unless the
  ring is empty (\<open>byte_take\<close>). A tally counts the items that went into and out of each
  ring: a capture or a store on a full ring puts nothing in.
\<close>

datatype ring_op = Capture u32 bool | TakeEdge | StoreByte | TakeByte

record tally =
  edges_in :: nat
  edges_out :: nat
  bytes_in :: nat
  bytes_out :: nat

fun ring_step :: "ring_op \<Rightarrow> sws \<times> tally \<Rightarrow> (sws \<times> tally) option" where
  "ring_step (Capture t l) (s, n) =
     (case rxRead t l s of None \<Rightarrow> None
      | Some s' \<Rightarrow> Some (s', if isr_full s then n else n\<lparr>edges_in := edges_in n + 1\<rparr>))"
| "ring_step TakeEdge (s, n) =
     (if isr_avail s = 0 then Some (s, n)
      else (case isr_take s of None \<Rightarrow> None
            | Some (c, s') \<Rightarrow> Some (s', n\<lparr>edges_out := edges_out n + 1\<rparr>)))"
| "ring_step StoreByte (s, n) =
     (case rx_store s of None \<Rightarrow> None
      | Some s' \<Rightarrow> Some (s', if byte_full s then n else n\<lparr>bytes_in := bytes_in n + 1\<rparr>))"
| "ring_step TakeByte (s, n) =
     (if m_inPos s = m_outPos s then Some (s, n)
      else (case byte_take s of None \<Rightarrow> None
            | Some (ch, s') \<Rightarrow> Some (s', n\<lparr>bytes_out := bytes_out n + 1\<rparr>)))"

fun ring_run :: "ring_op list \<Rightarrow> sws \<times> tally \<Rightarrow> (sws \<times> tally) option" where
  "ring_run [] st = Some st"
| "ring_run (x # xs) st = (case ring_step x st of None \<Rightarrow> None | Some st' \<Rightarrow> ring_run xs st')"

definition no_items :: tally where
  "no_items = \<lparr>edges_in = 0, edges_out = 0, bytes_in = 0, bytes_out = 0\<rparr>"

text \<open>The invariant of a run that started from \<open>s0\<close>.\<close>

definition ring_inv :: "sws \<Rightarrow> sws \<times> tally \<Rightarrow> bool" where
  "ring_inv s0 st \<longleftrightarrow>
     (case st of (s, n) \<Rightarrow>
        rx_wf s \<and> m_bufSize s = m_bufSize s0 \<and> m_isrBufSize s = m_isrBufSize s0 \<and>
        byte_avail s = int (bytes_in n) - int (bytes_out n) \<and>
        isr_avail s = int (edges_in n) - int (edges_out n))"

declare rx_bits_loop.simps [simp del]

section \<open>Auxiliary facts\<close>

subsection \<open>Arithmetic, the bit loop, frames and well-formedness\<close>

lemma smod_nonneg: "0 \<le> a \<Longrightarrow> 0 < b \<Longrightarrow> a smod b = a mod (b::int)"
  by (simp add: signed_modulo_int_def sgn_if)

lemma sdiv_nonneg: "0 \<le> a \<Longrightarrow> 0 < b \<Longrightarrow> a sdiv b = a div (b::int)"
  by (simp add: signed_divide_int_def sgn_if)

lemma c_mod_next: "0 \<le> i \<Longrightarrow> i < n \<Longrightarrow> c_mod (i + 1) n = Some ((i + 1) mod n)"
  by (simp add: c_mod_def smod_nonneg)

lemma loop_data:
  assumes "- 1 \<le> m_rxCurBit s" "m_rxCurBit s < 7"
    and "rx_hidden c s = Some (c1, s1)" "rx_shift l c1 s1 = (c2, s2)"
  shows "rx_bits_loop l c s = (if 0 \<le> c2 then rx_bits_loop l c2 s2 else Some s2)"
  using assms by (subst rx_bits_loop.simps) simp

lemma loop_data_None:
  assumes "- 1 \<le> m_rxCurBit s" "m_rxCurBit s < 7" "rx_hidden c s = None"
  shows "rx_bits_loop l c s = None"
  using assms by (subst rx_bits_loop.simps) simp

lemma loop_stop:
  assumes "m_rxCurBit s = 7" "rx_store s = Some s1"
  shows "rx_bits_loop l c s =
         (if 0 \<le> c - m_bitCycles s then rx_bits_loop l (c - m_bitCycles s) s1 else Some s1)"
  using assms by (subst rx_bits_loop.simps) simp

lemma loop_stop_None:
  assumes "m_rxCurBit s = 7" "rx_store s = None"
  shows "rx_bits_loop l c s = None"
  using assms by (subst rx_bits_loop.simps) simp

lemma loop_idle:
  assumes "m_rxCurBit s = 8"
  shows "rx_bits_loop l c s = Some (if \<not> l then s\<lparr>m_rxCurBit := - 1\<rparr> else s)"
  using assms by (subst rx_bits_loop.simps) simp

lemma loop_other:
  assumes "m_rxCurBit s < - 1 \<or> 8 < m_rxCurBit s"
  shows "rx_bits_loop l c s = Some s"
proof -
  have "\<not> (- 1 \<le> m_rxCurBit s \<and> m_rxCurBit s < 7)" "m_rxCurBit s \<noteq> 7" "m_rxCurBit s \<noteq> 8"
    using assms by auto
  then show ?thesis by (subst rx_bits_loop.simps [of l c s]) (simp only: if_False)
qed

lemma rx_bits_loop_rel:
  assumes refl: "\<And>s. P s \<Longrightarrow> R s s"
    and trans: "\<And>a b c. R a b \<Longrightarrow> R b c \<Longrightarrow> R a c"
    and hid: "\<And>c s c' s'. P s \<Longrightarrow> rx_hidden c s = Some (c', s') \<Longrightarrow> R s s' \<and> P s'"
    and shf: "\<And>l c s c' s'. P s \<Longrightarrow> rx_shift l c s = (c', s') \<Longrightarrow> R s s' \<and> P s'"
    and sto: "\<And>s s'. P s \<Longrightarrow> rx_store s = Some s' \<Longrightarrow> R s s' \<and> P s'"
    and idle: "\<And>s. P s \<Longrightarrow> R s (s\<lparr>m_rxCurBit := - 1\<rparr>)"
  shows "P s \<Longrightarrow> rx_bits_loop l c s = Some s' \<Longrightarrow> R s s'"
proof (induction l c s rule: rx_bits_loop.induct)
  case (1 level cycles s)
  note P = \<open>P s\<close> and run = \<open>rx_bits_loop level cycles s = Some s'\<close>
  consider (data) "- 1 \<le> m_rxCurBit s \<and> m_rxCurBit s < 7" | (stop) "m_rxCurBit s = 7"
    | (idle) "m_rxCurBit s = 8" | (other) "m_rxCurBit s < - 1 \<or> 8 < m_rxCurBit s"
    by linarith
  then show ?case
  proof cases
    case data
    then have d: "- 1 \<le> m_rxCurBit s" "m_rxCurBit s < 7" by simp_all
    have "rx_hidden cycles s \<noteq> None"
      using loop_data_None [OF d, of cycles level] run by (cases "rx_hidden cycles s") simp_all
    then obtain c1 s1 where h: "rx_hidden cycles s = Some (c1, s1)" by (cases "rx_hidden cycles s") auto
    obtain c2 s2 where sh: "rx_shift level c1 s1 = (c2, s2)" by fastforce
    from hid [OF P h] have 1: "R s s1" "P s1" by simp_all
    from shf [OF 1(2) sh] have 2: "R s1 s2" "P s2" by simp_all
    have r: "R s s2" using trans 1(1) 2(1) by blast
    show ?thesis
    proof (cases "0 \<le> c2")
      case True
      have "rx_bits_loop level c2 s2 = Some s'"
        using run loop_data [OF d h sh] True by simp
      moreover have "P s2 \<Longrightarrow> rx_bits_loop level c2 s2 = Some s' \<Longrightarrow> R s2 s'"
        using "1.IH"(1) [of "(c1, s1)" c1 s1 c2 s2] data h sh True by simp
      ultimately have "R s2 s'" using 2(2) by simp
      with r show ?thesis using trans by blast
    next
      case False
      then have "s' = s2" using run loop_data [OF d h sh] by simp
      with r show ?thesis by simp
    qed
  next
    case stop
    have "rx_store s \<noteq> None"
      using loop_stop_None [OF stop, of level cycles] run by (cases "rx_store s") simp_all
    then obtain s1 where st: "rx_store s = Some s1" by (cases "rx_store s") auto
    from sto [OF P st] have 1: "R s s1" "P s1" by simp_all
    show ?thesis
    proof (cases "0 \<le> cycles - m_bitCycles s")
      case True
      have "rx_bits_loop level (cycles - m_bitCycles s) s1 = Some s'"
        using run loop_stop [OF stop st] True by simp
      moreover have "P s1 \<Longrightarrow> rx_bits_loop level (cycles - m_bitCycles s) s1 = Some s' \<Longrightarrow> R s1 s'"
        using "1.IH"(2) [of s1] stop st True by simp
      ultimately have "R s1 s'" using 1(2) by simp
      with 1(1) show ?thesis using trans by blast
    next
      case False
      then have "s' = s1" using run loop_stop [OF stop st] by simp
      with 1(1) show ?thesis by simp
    qed
  next
    case idle
    then show ?thesis
      using run loop_idle [OF idle, of level cycles] refl [OF P] assms(6) [OF P]
      by (cases level) simp_all
  next
    case other
    then show ?thesis using run loop_other [OF other, of level cycles] refl [OF P] by simp
  qed
qed

lemma rx_keeps_refl: "rx_keeps s s"
  by (simp add: rx_keeps_def)

lemma rx_keeps_trans: "rx_keeps a b \<Longrightarrow> rx_keeps b c \<Longrightarrow> rx_keeps a c"
  by (simp add: rx_keeps_def)

lemma decode_keeps_refl: "decode_keeps s s"
  by (simp add: decode_keeps_def rx_keeps_def)

lemma decode_keeps_trans: "decode_keeps a b \<Longrightarrow> decode_keeps b c \<Longrightarrow> decode_keeps a c"
  by (simp add: decode_keeps_def rx_keeps_def)

lemma rx_hidden_keeps: "rx_hidden c s = Some (c', s') \<Longrightarrow> decode_keeps s s' \<and> m_isrOutPos s' = m_isrOutPos s
    \<and> m_isrLastCycle s' = m_isrLastCycle s \<and> m_buffer s' = m_buffer s \<and> m_inPos s' = m_inPos s"
  by (auto simp: rx_hidden_def decode_keeps_def rx_keeps_def Let_def c_div_def split: if_splits)

lemma rx_shift_keeps: "rx_shift l c s = (c', s') \<Longrightarrow> decode_keeps s s' \<and> m_isrOutPos s' = m_isrOutPos s
    \<and> m_isrLastCycle s' = m_isrLastCycle s \<and> m_buffer s' = m_buffer s \<and> m_inPos s' = m_inPos s"
  by (auto simp: rx_shift_def decode_keeps_def rx_keeps_def split: if_splits)

lemma rx_store_keeps: "rx_store s = Some s' \<Longrightarrow> decode_keeps s s' \<and> m_isrOutPos s' = m_isrOutPos s
    \<and> m_isrLastCycle s' = m_isrLastCycle s"
  by (auto simp: rx_store_def decode_keeps_def rx_keeps_def split: option.splits if_splits)

lemma rx_hidden_wf:
  assumes "rx_wf s" "- 1 \<le> m_rxCurBit s" "m_rxCurBit s < 7"
  shows "\<exists>c' s'. rx_hidden c s = Some (c', s')"
proof (cases "m_bitCycles s \<le> c")
  case True
  from assms have bc: "0 < m_bitCycles s" by (simp add: rx_wf_def)
  with True have "1 \<le> c div m_bitCycles s"
    using zdiv_mono1 [of "m_bitCycles s" c "m_bitCycles s"] by simp
  moreover have "c sdiv m_bitCycles s = c div m_bitCycles s"
    using True bc by (simp add: sdiv_nonneg)
  ultimately show ?thesis using True bc assms(2,3)
    by (simp add: rx_hidden_def c_div_def Let_def)
next
  case False
  then show ?thesis by (simp add: rx_hidden_def)
qed

lemma rx_hidden_wf': "rx_wf s \<Longrightarrow> rx_hidden c s = Some (c', s') \<Longrightarrow> rx_wf s'"
  by (auto simp: rx_hidden_def rx_wf_def Let_def c_div_def split: if_splits)

lemma rx_shift_wf: "rx_wf s \<Longrightarrow> rx_shift l c s = (c', s') \<Longrightarrow> rx_wf s'"
  by (auto simp: rx_shift_def rx_wf_def split: if_splits)

lemma rx_store_wf:
  assumes "rx_wf s"
  shows "\<exists>s'. rx_store s = Some s' \<and> rx_wf s'"
proof -
  from assms have "alloc_len (m_buffer s) = m_bufSize s" "0 < m_bufSize s"
    by (simp_all add: rx_wf_def)
  then obtain ys where ys: "m_buffer s = Some ys" "int (length ys) = m_bufSize s"
    by (cases "m_buffer s") (simp_all add: alloc_len_def)
  from assms have i: "0 \<le> m_inPos s" "m_inPos s < m_bufSize s" by (simp_all add: rx_wf_def)
  have n: "c_mod (m_inPos s + 1) (m_bufSize s) = Some ((m_inPos s + 1) mod m_bufSize s)"
    using i by (rule c_mod_next)
  have r: "0 \<le> (m_inPos s + 1) mod m_bufSize s" "(m_inPos s + 1) mod m_bufSize s < m_bufSize s"
    using i by simp_all
  show ?thesis using assms ys i n r
    by (simp add: rx_store_def buf_store_def rx_wf_def alloc_len_def)
qed

lemma rx_bits_loop_wf:
  "rx_wf s \<Longrightarrow> \<exists>s'. rx_bits_loop l c s = Some s' \<and> rx_wf s'"
proof (induction l c s rule: rx_bits_loop.induct)
  case (1 level cycles s)
  note wf = \<open>rx_wf s\<close>
  consider (data) "- 1 \<le> m_rxCurBit s \<and> m_rxCurBit s < 7" | (stop) "m_rxCurBit s = 7"
    | (idle) "m_rxCurBit s = 8" | (other) "m_rxCurBit s < - 1 \<or> 8 < m_rxCurBit s"
    by linarith
  then show ?case
  proof cases
    case data
    then have d: "- 1 \<le> m_rxCurBit s" "m_rxCurBit s < 7" by simp_all
    from rx_hidden_wf [OF wf d] obtain c1 s1 where h: "rx_hidden cycles s = Some (c1, s1)" by blast
    obtain c2 s2 where sh: "rx_shift level c1 s1 = (c2, s2)" by fastforce
    have w2: "rx_wf s2" using rx_shift_wf [OF rx_hidden_wf' [OF wf h] sh] .
    show ?thesis
    proof (cases "0 \<le> c2")
      case True
      have "rx_wf s2 \<Longrightarrow> \<exists>s'. rx_bits_loop level c2 s2 = Some s' \<and> rx_wf s'"
        using "1.IH"(1) [of "(c1, s1)" c1 s1 c2 s2] data h sh True by simp
      then show ?thesis using w2 loop_data [OF d h sh] True by simp
    next
      case False
      then show ?thesis using w2 loop_data [OF d h sh] by simp
    qed
  next
    case stop
    from rx_store_wf [OF wf] obtain s1 where st: "rx_store s = Some s1" and w1: "rx_wf s1" by blast
    show ?thesis
    proof (cases "0 \<le> cycles - m_bitCycles s")
      case True
      have "rx_wf s1 \<Longrightarrow> \<exists>s'. rx_bits_loop level (cycles - m_bitCycles s) s1 = Some s' \<and> rx_wf s'"
        using "1.IH"(2) [of s1] stop st True by simp
      then show ?thesis using w1 loop_stop [OF stop st] True by simp
    next
      case False
      then show ?thesis using w1 loop_stop [OF stop st] by simp
    qed
  next
    case idle
    have "rx_wf (s\<lparr>m_rxCurBit := - 1\<rparr>)" using wf by (simp add: rx_wf_def)
    then show ?thesis using wf loop_idle [OF idle, of level cycles] by (cases level) simp_all
  next
    case other
    then show ?thesis using wf loop_other [OF other, of level cycles] by simp
  qed
qed

lemma rx_bits_loop_keeps:
  assumes "rx_bits_loop l c s = Some s'"
  shows "decode_keeps s s' \<and> m_isrOutPos s' = m_isrOutPos s \<and> m_isrLastCycle s' = m_isrLastCycle s"
proof -
  define R where "R = (\<lambda>s s'. decode_keeps s s' \<and> m_isrOutPos s' = m_isrOutPos s \<and>
     m_isrLastCycle s' = m_isrLastCycle s)"
  have "R s s'"
  proof (rule rx_bits_loop_rel [where P = "\<lambda>s. True" and R = R, OF _ _ _ _ _ _ _ assms])
    show "R s s" for s by (simp add: R_def decode_keeps_refl)
    show "R a b \<Longrightarrow> R b c \<Longrightarrow> R a c" for a b c
      using decode_keeps_trans [of a b c] by (simp add: R_def)
    show "rx_hidden c s = Some (c', s') \<Longrightarrow> R s s' \<and> True" for c s c' s'
      using rx_hidden_keeps [of c s c' s'] by (simp add: R_def)
    show "rx_shift l c s = (c', s') \<Longrightarrow> R s s' \<and> True" for l c s c' s'
      using rx_shift_keeps [of l c s c' s'] by (simp add: R_def)
    show "rx_store s = Some s' \<Longrightarrow> R s s' \<and> True" for s s'
      using rx_store_keeps [of s s'] by (simp add: R_def)
    show "R s (s\<lparr>m_rxCurBit := - 1\<rparr>)" for s
      by (simp add: R_def decode_keeps_def rx_keeps_def)
  qed simp
  then show ?thesis by (simp add: R_def)
qed

lemma alloc_len_Some:
  "alloc_len p = n \<Longrightarrow> 0 \<le> n \<Longrightarrow> \<exists>xs. p = Some xs \<and> int (length xs) = n"
  by (cases p) (simp_all add: alloc_len_def)

lemma isr_take_wf:
  assumes "rx_wf s"
  shows "\<exists>c. isr_take s = Some (c, s\<lparr>m_isrOutPos := (m_isrOutPos s + 1) mod m_isrBufSize s\<rparr>) \<and>
             rx_wf (s\<lparr>m_isrOutPos := (m_isrOutPos s + 1) mod m_isrBufSize s\<rparr>)"
proof -
  from assms have "alloc_len (m_isrBuffer s) = m_isrBufSize s" "0 \<le> m_isrBufSize s"
    by (simp_all add: rx_wf_def)
  then obtain xs where xs: "m_isrBuffer s = Some xs" "int (length xs) = m_isrBufSize s"
    using alloc_len_Some by blast
  from assms have i: "0 \<le> m_isrOutPos s" "m_isrOutPos s < m_isrBufSize s"
    by (simp_all add: rx_wf_def)
  have n: "c_mod (m_isrOutPos s + 1) (m_isrBufSize s) = Some ((m_isrOutPos s + 1) mod m_isrBufSize s)"
    using i by (rule c_mod_next)
  have r: "0 \<le> (m_isrOutPos s + 1) mod m_isrBufSize s"
    "(m_isrOutPos s + 1) mod m_isrBufSize s < m_isrBufSize s"
    using i by simp_all
  show ?thesis using assms xs i n r
    by (simp add: isr_take_def buf_load_def rx_wf_def)
qed

lemma isr_take_keeps:
  "isr_take s = Some (c, s') \<Longrightarrow> decode_keeps s s' \<and> m_isrLastCycle s' = m_isrLastCycle s \<and>
     m_inPos s' = m_inPos s \<and> m_buffer s' = m_buffer s"
  by (auto simp: isr_take_def decode_keeps_def rx_keeps_def split: option.splits)

lemma rx_edge_wf:
  assumes "rx_wf s"
  shows "\<exists>s'. rx_edge s = Some s' \<and> rx_wf s'"
proof -
  from isr_take_wf [OF assms] obtain c s1 where t: "isr_take s = Some (c, s1)" and w: "rx_wf s1"
    by blast
  have w2: "rx_wf (s1\<lparr>m_isrLastCycle := c\<rparr>)" using w by (simp add: rx_wf_def)
  show ?thesis
    using t w rx_bits_loop_wf [OF w2] by (simp add: rx_edge_def Let_def)
qed

lemma rx_edge_keeps:
  assumes "rx_edge s = Some s'"
  shows "decode_keeps s s'"
proof -
  from assms obtain c s1 where t: "isr_take s = Some (c, s1)"
    by (cases "isr_take s") (auto simp: rx_edge_def)
  have k1: "decode_keeps s s1" using isr_take_keeps [OF t] by simp
  have k2: "decode_keeps s1 (s1\<lparr>m_isrLastCycle := c\<rparr>)"
    by (simp add: decode_keeps_def rx_keeps_def)
  show ?thesis
  proof (cases "sint (c - m_isrLastCycle s1) - m_bitCycles s1 sdiv 2 < 0")
    case True
    then have "s' = s1" using assms t by (simp add: rx_edge_def Let_def)
    with k1 show ?thesis by simp
  next
    case False
    then have "rx_bits_loop (c AND 1 = of_bool (m_invert s1))
        (sint (c - m_isrLastCycle s1) - m_bitCycles s1 sdiv 2) (s1\<lparr>m_isrLastCycle := c\<rparr>) = Some s'"
      using assms t by (simp add: rx_edge_def Let_def)
    from rx_bits_loop_keeps [OF this] have "decode_keeps (s1\<lparr>m_isrLastCycle := c\<rparr>) s'" by simp
    with k1 k2 show ?thesis using decode_keeps_trans by blast
  qed
qed

lemma rx_drain_wf: "rx_wf s \<Longrightarrow> \<exists>s'. rx_drain n s = Some s' \<and> rx_wf s'"
proof (induction n arbitrary: s)
  case 0
  then show ?case by simp
next
  case (Suc n)
  from rx_edge_wf [OF Suc.prems] obtain s1 where "rx_edge s = Some s1" "rx_wf s1" by blast
  then show ?case using Suc.IH [of s1] by simp
qed

lemma rx_drain_keeps: "rx_drain n s = Some s' \<Longrightarrow> decode_keeps s s'"
proof (induction n arbitrary: s)
  case 0
  then show ?case by (simp add: decode_keeps_refl)
next
  case (Suc n)
  then obtain s1 where e: "rx_edge s = Some s1" and d: "rx_drain n s1 = Some s'"
    by (cases "rx_edge s") auto
  from rx_edge_keeps [OF e] Suc.IH [OF d] show ?case using decode_keeps_trans by blast
qed

lemma take_flags_simps:
  "isr_avail (take_flags s) = isr_avail s" "synth_due now (take_flags s) = synth_due now s"
  "rx_wf (take_flags s) = rx_wf s" "rx_keeps s (take_flags s)"
  "m_isrInPos (take_flags s) = m_isrInPos s" "m_isrOutPos (take_flags s) = m_isrOutPos s"
  "m_isrBufSize (take_flags s) = m_isrBufSize s" "synth_stamp (take_flags s) = synth_stamp s"
  "m_invert (take_flags s) = m_invert s"
  by (simp_all add: take_flags_def isr_avail_def synth_due_def rx_wf_def rx_keeps_def synth_stamp_def
      Let_def)

lemma rx_recover_not_due:
  "\<not> synth_due now s \<Longrightarrow> rx_recover now (isr_avail s) s = Some (isr_avail s, s)"
  by (auto simp: rx_recover_def synth_due_def Let_def)

lemma rx_recover_due:
  assumes "synth_due now s"
  shows "rx_recover now (isr_avail s) s =
     (case c_mod (m_isrInPos s + 1) (m_isrBufSize s) of None \<Rightarrow> None
      | Some next \<Rightarrow>
          if next \<noteq> m_isrOutPos s then
            map_option (Pair 1) (rxRead (synth_stamp s) (\<not> m_invert s) s)
          else Some (0, s\<lparr>m_isrOverflow := True\<rparr>))"
  using assms
  by (simp add: rx_recover_def synth_due_def Let_def rxRead_def synth_stamp_def split: option.splits)

lemma rxRead_wf:
  assumes "rx_wf s"
  shows "\<exists>s'. rxRead t l s = Some s' \<and> rx_wf s'"
proof -
  from assms have "alloc_len (m_isrBuffer s) = m_isrBufSize s" "0 \<le> m_isrBufSize s"
    by (simp_all add: rx_wf_def)
  then obtain xs where xs: "m_isrBuffer s = Some xs" "int (length xs) = m_isrBufSize s"
    using alloc_len_Some by blast
  from assms have i: "0 \<le> m_isrInPos s" "m_isrInPos s < m_isrBufSize s"
    by (simp_all add: rx_wf_def)
  have n: "c_mod (m_isrInPos s + 1) (m_isrBufSize s) = Some ((m_isrInPos s + 1) mod m_isrBufSize s)"
    using i by (rule c_mod_next)
  have r: "0 \<le> (m_isrInPos s + 1) mod m_isrBufSize s"
    "(m_isrInPos s + 1) mod m_isrBufSize s < m_isrBufSize s"
    using i by simp_all
  show ?thesis using assms xs i n r
    by (simp add: rxRead_def buf_store_def rx_wf_def alloc_len_def)
qed

lemma rxRead_keeps:
  "rxRead t l s = Some s' \<Longrightarrow> rx_keeps s s' \<and> m_isrOutPos s' = m_isrOutPos s \<and>
     m_inPos s' = m_inPos s \<and> m_buffer s' = m_buffer s \<and> m_rxCurBit s' = m_rxCurBit s \<and>
     m_rxCurByte s' = m_rxCurByte s \<and> m_isrLastCycle s' = m_isrLastCycle s"
  by (auto simp: rxRead_def rx_keeps_def split: option.splits if_splits)

lemma rx_recover_wf:
  assumes "rx_wf s"
  shows "\<exists>a s'. rx_recover now (isr_avail s) s = Some (a, s') \<and> rx_wf s' \<and> 0 \<le> a"
proof (cases "synth_due now s")
  case True
  from assms have i: "0 \<le> m_isrInPos s" "m_isrInPos s < m_isrBufSize s"
    by (simp_all add: rx_wf_def)
  have n: "c_mod (m_isrInPos s + 1) (m_isrBufSize s) = Some ((m_isrInPos s + 1) mod m_isrBufSize s)"
    using i by (rule c_mod_next)
  from rxRead_wf [OF assms] obtain s' where
    r: "rxRead (synth_stamp s) (\<not> m_invert s) s = Some s'" and w: "rx_wf s'" by blast
  have w0: "rx_wf (s\<lparr>m_isrOverflow := True\<rparr>)" using assms by (simp add: rx_wf_def)
  show ?thesis using rx_recover_due [OF True] n r w w0 by simp
next
  case False
  have "0 \<le> isr_avail s" using assms by (simp add: isr_avail_def rx_wf_def Let_def)
  then show ?thesis using rx_recover_not_due [OF False] assms by simp
qed

lemma rx_recover_keeps:
  assumes "rx_recover now (isr_avail s) s = Some (a, s')"
  shows "rx_keeps s s' \<and> m_isrOutPos s' = m_isrOutPos s"
proof (cases "synth_due now s")
  case True
  show ?thesis
    using assms rx_recover_due [OF True] rxRead_keeps [of "synth_stamp s" "\<not> m_invert s" s]
    by (auto simp: rx_keeps_def split: option.splits if_splits)
next
  case False
  then show ?thesis using assms rx_recover_not_due [OF False] by (simp add: rx_keeps_refl)
qed

lemma rxBits_wf:
  assumes "rx_wf s"
  shows "\<exists>s'. rxBits now s = Some s' \<and> rx_wf s'"
proof -
  have w: "rx_wf (take_flags s)" using assms by (simp add: take_flags_simps)
  from rx_recover_wf [OF w, of now] obtain a s1 where
    r: "rx_recover now (isr_avail s) (take_flags s) = Some (a, s1)" and w1: "rx_wf s1" and a: "0 \<le> a"
    by (auto simp: take_flags_simps)
  from rx_drain_wf [OF w1, of "nat a"] show ?thesis using r a by (simp add: rxBits_def)
qed

lemma rxBits_keeps:
  assumes "rxBits now s = Some s'"
  shows "rx_keeps s s'"
proof -
  from assms obtain a s1 where
    r: "rx_recover now (isr_avail (take_flags s)) (take_flags s) = Some (a, s1)"
    and d: "rx_drain (nat a) s1 = Some s'"
    by (auto simp: rxBits_def take_flags_simps split: option.splits if_splits)
  have "rx_keeps s (take_flags s)" by (simp add: take_flags_simps)
  moreover have "rx_keeps (take_flags s) s1" using rx_recover_keeps [OF r] by simp
  moreover have "rx_keeps s1 s'" using rx_drain_keeps [OF d] by (simp add: decode_keeps_def)
  ultimately show ?thesis using rx_keeps_trans by blast
qed

lemma next_idx: "0 \<le> i \<Longrightarrow> i < n \<Longrightarrow> (i + 1) mod n = (if i + 1 = n then 0 else i + (1::int))"
  by simp

lemma byte_avail_range:
  assumes "rx_wf s"
  shows "0 \<le> byte_avail s \<and> byte_avail s \<le> m_bufSize s - 1"
  using assms by (simp add: rx_wf_def byte_avail_def Let_def)

lemma isr_avail_range:
  assumes "rx_wf s"
  shows "0 \<le> isr_avail s \<and> isr_avail s \<le> m_isrBufSize s - 1"
  using assms by (simp add: rx_wf_def isr_avail_def Let_def)

lemma byte_full_iff:
  assumes "rx_wf s"
  shows "byte_full s \<longleftrightarrow> byte_avail s = m_bufSize s - 1"
proof -
  from assms have i: "0 \<le> m_inPos s" "m_inPos s < m_bufSize s" "0 \<le> m_outPos s"
    "m_outPos s < m_bufSize s" by (simp_all add: rx_wf_def)
  show ?thesis
    using i by (auto simp: byte_full_def c_mod_next next_idx byte_avail_def Let_def split: if_splits)
qed

lemma isr_full_iff:
  assumes "rx_wf s"
  shows "isr_full s \<longleftrightarrow> isr_avail s = m_isrBufSize s - 1"
proof -
  from assms have i: "0 \<le> m_isrInPos s" "m_isrInPos s < m_isrBufSize s" "0 \<le> m_isrOutPos s"
    "m_isrOutPos s < m_isrBufSize s" by (simp_all add: rx_wf_def)
  show ?thesis
    using i by (auto simp: isr_full_def c_mod_next next_idx isr_avail_def Let_def split: if_splits)
qed

lemma available_range:
  assumes "rx_wf s"
  shows "\<exists>k s'. available now1 now2 s = Some (k, s') \<and> 0 \<le> k \<and> k \<le> m_bufSize s - 1 \<and>
                 (m_rxValid s \<longrightarrow> k = byte_avail s')"
proof (cases "m_rxValid s")
  case False
  from assms have "0 < m_bufSize s" by (simp add: rx_wf_def)
  then show ?thesis using False by (simp add: available_def)
next
  case True
  from rxBits_wf [OF assms] obtain s1 where r1: "rxBits now1 s = Some s1" and w1: "rx_wf s1"
    by blast
  from rxBits_keeps [OF r1] have b1: "m_bufSize s1 = m_bufSize s" by (simp add: rx_keeps_def)
  from rxBits_wf [OF w1] obtain s2 where r2: "rxBits now2 s1 = Some s2" and w2: "rx_wf s2"
    by blast
  from rxBits_keeps [OF r2] have b2: "m_bufSize s2 = m_bufSize s1" by (simp add: rx_keeps_def)
  show ?thesis
    using True r1 r2 b1 b2 byte_avail_range [OF w1] byte_avail_range [OF w2]
    by (simp add: available_def)
qed

lemma capture_step:
  assumes "rx_wf s"
  shows "\<exists>s'. rxRead t l s = Some s' \<and> rx_wf s' \<and> m_bufSize s' = m_bufSize s \<and>
           m_isrBufSize s' = m_isrBufSize s \<and> byte_avail s' = byte_avail s \<and>
           isr_avail s' = isr_avail s + (if isr_full s then 0 else 1)"
proof -
  from rxRead_wf [OF assms] obtain s' where r: "rxRead t l s = Some s'" and w: "rx_wf s'" by blast
  from assms have i: "0 \<le> m_isrInPos s" "m_isrInPos s < m_isrBufSize s" "0 \<le> m_isrOutPos s"
    "m_isrOutPos s < m_isrBufSize s" by (simp_all add: rx_wf_def)
  have k: "m_bufSize s' = m_bufSize s" "m_isrBufSize s' = m_isrBufSize s" "m_outPos s' = m_outPos s"
    "m_inPos s' = m_inPos s" "m_isrOutPos s' = m_isrOutPos s"
    using rxRead_keeps [OF r] by (simp_all add: rx_keeps_def)
  have "m_isrInPos s' = (if isr_full s then m_isrInPos s else (m_isrInPos s + 1) mod m_isrBufSize s)"
    using r i by (auto simp: rxRead_def isr_full_def c_mod_next split: if_splits option.splits)
  then have "isr_avail s' = isr_avail s + (if isr_full s then 0 else 1)"
    using i k by (auto simp: isr_avail_def Let_def isr_full_def c_mod_next next_idx split: if_splits)
  then show ?thesis using r w k by (simp add: byte_avail_def Let_def)
qed

lemma take_edge_step:
  assumes "rx_wf s" "isr_avail s \<noteq> 0"
  shows "\<exists>c s'. isr_take s = Some (c, s') \<and> rx_wf s' \<and> m_bufSize s' = m_bufSize s \<and>
           m_isrBufSize s' = m_isrBufSize s \<and> byte_avail s' = byte_avail s \<and>
           isr_avail s' = isr_avail s - 1"
proof -
  from isr_take_wf [OF assms(1)] obtain c where
    r: "isr_take s = Some (c, s\<lparr>m_isrOutPos := (m_isrOutPos s + 1) mod m_isrBufSize s\<rparr>)"
    and w: "rx_wf (s\<lparr>m_isrOutPos := (m_isrOutPos s + 1) mod m_isrBufSize s\<rparr>)" by blast
  from assms have i: "0 \<le> m_isrInPos s" "m_isrInPos s < m_isrBufSize s" "0 \<le> m_isrOutPos s"
    "m_isrOutPos s < m_isrBufSize s" by (simp_all add: rx_wf_def)
  have "isr_avail (s\<lparr>m_isrOutPos := (m_isrOutPos s + 1) mod m_isrBufSize s\<rparr>) = isr_avail s - 1"
    using i assms(2) by (auto simp: isr_avail_def Let_def next_idx split: if_splits)
  then show ?thesis using r w by (simp add: byte_avail_def Let_def)
qed

lemma store_byte_step:
  assumes "rx_wf s"
  shows "\<exists>s'. rx_store s = Some s' \<and> rx_wf s' \<and> m_bufSize s' = m_bufSize s \<and>
           m_isrBufSize s' = m_isrBufSize s \<and> isr_avail s' = isr_avail s \<and>
           byte_avail s' = byte_avail s + (if byte_full s then 0 else 1)"
proof -
  from rx_store_wf [OF assms] obtain s' where r: "rx_store s = Some s'" and w: "rx_wf s'" by blast
  from assms have i: "0 \<le> m_inPos s" "m_inPos s < m_bufSize s" "0 \<le> m_outPos s"
    "m_outPos s < m_bufSize s" by (simp_all add: rx_wf_def)
  have k: "m_bufSize s' = m_bufSize s" "m_isrBufSize s' = m_isrBufSize s" "m_outPos s' = m_outPos s"
    "m_isrInPos s' = m_isrInPos s" "m_isrOutPos s' = m_isrOutPos s"
    using rx_store_keeps [OF r] by (simp_all add: decode_keeps_def rx_keeps_def)
  have "m_inPos s' = (if byte_full s then m_inPos s else (m_inPos s + 1) mod m_bufSize s)"
    using r i by (auto simp: rx_store_def byte_full_def c_mod_next split: if_splits option.splits)
  then have "byte_avail s' = byte_avail s + (if byte_full s then 0 else 1)"
    using i k by (auto simp: byte_avail_def Let_def byte_full_def c_mod_next next_idx split: if_splits)
  then show ?thesis using r w k by (simp add: isr_avail_def Let_def)
qed

lemma byte_take_wf:
  assumes "rx_wf s"
  shows "\<exists>ch. byte_take s = Some (ch, s\<lparr>m_outPos := (m_outPos s + 1) mod m_bufSize s\<rparr>) \<and>
             rx_wf (s\<lparr>m_outPos := (m_outPos s + 1) mod m_bufSize s\<rparr>)"
proof -
  from assms have "alloc_len (m_buffer s) = m_bufSize s" "0 \<le> m_bufSize s"
    by (simp_all add: rx_wf_def)
  then obtain xs where xs: "m_buffer s = Some xs" "int (length xs) = m_bufSize s"
    using alloc_len_Some by blast
  from assms have i: "0 \<le> m_outPos s" "m_outPos s < m_bufSize s"
    by (simp_all add: rx_wf_def)
  have n: "c_mod (m_outPos s + 1) (m_bufSize s) = Some ((m_outPos s + 1) mod m_bufSize s)"
    using i by (rule c_mod_next)
  have r: "0 \<le> (m_outPos s + 1) mod m_bufSize s"
    "(m_outPos s + 1) mod m_bufSize s < m_bufSize s"
    using i by simp_all
  show ?thesis using assms xs i n r
    by (simp add: byte_take_def buf_load_def rx_wf_def)
qed

lemma take_byte_step:
  assumes "rx_wf s" "m_inPos s \<noteq> m_outPos s"
  shows "\<exists>c s'. byte_take s = Some (c, s') \<and> rx_wf s' \<and> m_bufSize s' = m_bufSize s \<and>
           m_isrBufSize s' = m_isrBufSize s \<and> isr_avail s' = isr_avail s \<and>
           byte_avail s' = byte_avail s - 1"
proof -
  from byte_take_wf [OF assms(1)] obtain c where
    r: "byte_take s = Some (c, s\<lparr>m_outPos := (m_outPos s + 1) mod m_bufSize s\<rparr>)"
    and w: "rx_wf (s\<lparr>m_outPos := (m_outPos s + 1) mod m_bufSize s\<rparr>)" by blast
  from assms have i: "0 \<le> m_inPos s" "m_inPos s < m_bufSize s" "0 \<le> m_outPos s"
    "m_outPos s < m_bufSize s" by (simp_all add: rx_wf_def)
  have "byte_avail (s\<lparr>m_outPos := (m_outPos s + 1) mod m_bufSize s\<rparr>) = byte_avail s - 1"
    using i assms(2) by (auto simp: byte_avail_def Let_def next_idx split: if_splits)
  then show ?thesis using r w by (simp add: isr_avail_def Let_def)
qed

lemma ring_step_inv:
  assumes "ring_inv s0 st"
  shows "\<exists>st'. ring_step x st = Some st' \<and> ring_inv s0 st'"
proof -
  obtain s n where st: "st = (s, n)" by (cases st)
  from assms st have w: "rx_wf s" and z: "m_bufSize s = m_bufSize s0" "m_isrBufSize s = m_isrBufSize s0"
    and b: "byte_avail s = int (bytes_in n) - int (bytes_out n)"
    and e: "isr_avail s = int (edges_in n) - int (edges_out n)"
    by (simp_all add: ring_inv_def)
  show ?thesis
  proof (cases x)
    case (Capture t l)
    from capture_step [OF w, of t l] obtain s' where "rxRead t l s = Some s'" "rx_wf s'"
      "m_bufSize s' = m_bufSize s" "m_isrBufSize s' = m_isrBufSize s" "byte_avail s' = byte_avail s"
      "isr_avail s' = isr_avail s + (if isr_full s then 0 else 1)" by blast
    then show ?thesis using st Capture z b e by (simp add: ring_inv_def)
  next
    case TakeEdge
    show ?thesis
    proof (cases "isr_avail s = 0")
      case True
      then show ?thesis using st TakeEdge assms by simp
    next
      case False
      from take_edge_step [OF w False] obtain c s' where "isr_take s = Some (c, s')" "rx_wf s'"
        "m_bufSize s' = m_bufSize s" "m_isrBufSize s' = m_isrBufSize s" "byte_avail s' = byte_avail s"
        "isr_avail s' = isr_avail s - 1" by blast
      then show ?thesis using st TakeEdge z b e False by (simp add: ring_inv_def)
    qed
  next
    case StoreByte
    from store_byte_step [OF w] obtain s' where "rx_store s = Some s'" "rx_wf s'"
      "m_bufSize s' = m_bufSize s" "m_isrBufSize s' = m_isrBufSize s" "isr_avail s' = isr_avail s"
      "byte_avail s' = byte_avail s + (if byte_full s then 0 else 1)" by blast
    then show ?thesis using st StoreByte z b e by (simp add: ring_inv_def)
  next
    case TakeByte
    show ?thesis
    proof (cases "m_inPos s = m_outPos s")
      case True
      then show ?thesis using st TakeByte assms by simp
    next
      case False
      from take_byte_step [OF w False] obtain c s' where "byte_take s = Some (c, s')" "rx_wf s'"
        "m_bufSize s' = m_bufSize s" "m_isrBufSize s' = m_isrBufSize s" "isr_avail s' = isr_avail s"
        "byte_avail s' = byte_avail s - 1" by blast
      then show ?thesis using st TakeByte z b e False by (simp add: ring_inv_def)
    qed
  qed
qed

lemma ring_run_inv:
  "ring_inv s0 st \<Longrightarrow> \<exists>st'. ring_run ops st = Some st' \<and> ring_inv s0 st'"
proof (induction ops arbitrary: st)
  case Nil
  then show ?case by simp
next
  case (Cons x xs)
  from ring_step_inv [OF Cons.prems, of x] obtain st1 where
    "ring_step x st = Some st1" "ring_inv s0 st1" by blast
  then show ?case using Cons.IH [of st1] by simp
qed

lemma tx_keeps_refl: "tx_keeps s s"
  by (simp add: tx_keeps_def)

lemma tx_keeps_trans: "tx_keeps s s1 \<Longrightarrow> tx_keeps s1 s2 \<Longrightarrow> tx_keeps s s2"
  by (cases s, cases s1, cases s2) (simp add: tx_keeps_def)

lemma tx_keeps_deadline: "tx_keeps s (s\<lparr>m_periodDeadline := p\<rparr>)"
  by (simp add: tx_keeps_def)

lemma preciseDelay_Some:
  "cpuMHz \<noteq> 0 \<Longrightarrow> \<exists>e. preciseDelay cpuMHz now deadline s = Some e"
  by (simp add: preciseDelay_def c_div_def)

lemma writePeriod_Some:
  assumes "cpuMHz \<noteq> 0"
  shows "\<exists>k' s' e. writePeriod cpuMHz clk d f k s = Some (k', s', e) \<and> tx_keeps s s'"
proof -
  define s1 where "s1 = (if d \<noteq> 0 then s\<lparr>m_periodDeadline := m_periodDeadline s + d\<rparr> else s)"
  have k1: "tx_keeps s s1" by (simp add: s1_def tx_keeps_def)
  have "\<exists>ka e1. (if d \<noteq> 0 then
              let s1 = s\<lparr>m_periodDeadline := m_periodDeadline s + d\<rparr> in
              (case preciseDelay cpuMHz (clk k) (m_periodDeadline s1) s1 of None \<Rightarrow> None
               | Some e \<Rightarrow> Some (Suc k, s1, PinMode (m_txPin s1) INPUT_PULLUP # e))
            else Some (k, s, [])) = Some (ka, s1, e1)"
  proof (cases "d = 0")
    case True
    then show ?thesis by (simp add: s1_def)
  next
    case False
    from preciseDelay_Some [OF assms, of "clk k" "m_periodDeadline s + d"
        "s\<lparr>m_periodDeadline := m_periodDeadline s + d\<rparr>"]
    obtain e where "preciseDelay cpuMHz (clk k) (m_periodDeadline s + d)
        (s\<lparr>m_periodDeadline := m_periodDeadline s + d\<rparr>) = Some e" by blast
    then show ?thesis using False by (simp add: s1_def Let_def)
  qed
  then obtain ka e1 where a: "(if d \<noteq> 0 then
              let s1 = s\<lparr>m_periodDeadline := m_periodDeadline s + d\<rparr> in
              (case preciseDelay cpuMHz (clk k) (m_periodDeadline s1) s1 of None \<Rightarrow> None
               | Some e \<Rightarrow> Some (Suc k, s1, PinMode (m_txPin s1) INPUT_PULLUP # e))
            else Some (k, s, [])) = Some (ka, s1, e1)"
    by blast
  show ?thesis
  proof (cases "f = 0")
    case True
    then have "writePeriod cpuMHz clk d f k s = Some (ka, s1, e1)"
      unfolding writePeriod_def a by simp
    with k1 show ?thesis by blast
  next
    case False
    define s2 where "s2 = s1\<lparr>m_periodDeadline := m_periodDeadline s1 + f\<rparr>"
    from preciseDelay_Some [OF assms, of "clk ka" "m_periodDeadline s2" s2]
    obtain e where e: "preciseDelay cpuMHz (clk ka) (m_periodDeadline s2) s2 = Some e" by blast
    have "writePeriod cpuMHz clk d f k s = Some (Suc ka, s2, e1 @ PinMode (m_txPin s2) OUTPUT # e)"
      unfolding writePeriod_def a using False e by (simp add: Let_def s2_def)
    moreover have "tx_keeps s s2"
      using tx_keeps_trans [OF k1 tx_keeps_deadline] by (simp add: s2_def)
    ultimately show ?thesis by blast
  qed
qed

lemma write_bit_Some:
  assumes "cpuMHz \<noteq> 0"
  shows "\<exists>d' f' pb' ob' k' s' ev'.
           write_bit cpuMHz clk i (d, f, pb, ob, k, s, ev) = Some (d', f', pb', ob', k', s', ev') \<and>
           tx_keeps s s'"
proof (cases "\<not> pb \<and> (if i < 8 then ob AND 1 \<noteq> 0 else \<not> m_invert s)")
  case True
  from writePeriod_Some [OF assms, of clk d f k s] obtain k1 s1 e where
    w: "writePeriod cpuMHz clk d f k s = Some (k1, s1, e)" and t: "tx_keeps s s1" by blast
  have "write_bit cpuMHz clk i (d, f, pb, ob, k, s, ev) =
          Some (0 + word_of_int (m_bitCycles s1), 0, True, drop_bit 1 ob, k1, s1, ev @ e)"
    unfolding write_bit_def using True by (cases "i < 8") (auto simp: Let_def w)
  with t show ?thesis by blast
next
  case False
  have "\<exists>d' f' pb'. write_bit cpuMHz clk i (d, f, pb, ob, k, s, ev) =
          Some (d', f', pb', drop_bit 1 ob, k, s, ev)"
    unfolding write_bit_def using False by (cases "i < 8") (auto simp: Let_def)
  with tx_keeps_refl [of s] show ?thesis by blast
qed

lemma fold_write_bit_Some:
  assumes "cpuMHz \<noteq> 0"
  shows "\<exists>d' f' pb' ob' k' s' ev'.
           fold (\<lambda>i r. case r of None \<Rightarrow> None | Some st1 \<Rightarrow> write_bit cpuMHz clk i st1) js
             (Some (d, f, pb, ob, k, s, ev)) = Some (d', f', pb', ob', k', s', ev') \<and>
           tx_keeps s s'"
proof (induction js arbitrary: d f pb ob k s ev)
  case Nil
  then show ?case by (simp add: tx_keeps_refl)
next
  case (Cons j js)
  from write_bit_Some [OF assms, of clk j d f pb ob k s ev] obtain d1 f1 pb1 ob1 k1 s1 ev1 where
    w: "write_bit cpuMHz clk j (d, f, pb, ob, k, s, ev) = Some (d1, f1, pb1, ob1, k1, s1, ev1)"
    and t: "tx_keeps s s1" by blast
  from Cons.IH [of d1 f1 pb1 ob1 k1 s1 ev1] obtain d' f' pb' ob' k' s' ev' where
    r: "fold (\<lambda>i r. case r of None \<Rightarrow> None | Some st1 \<Rightarrow> write_bit cpuMHz clk i st1) js
             (Some (d1, f1, pb1, ob1, k1, s1, ev1)) = Some (d', f', pb', ob', k', s', ev')"
    and t': "tx_keeps s1 s'" by blast
  from w r have "fold (\<lambda>i r. case r of None \<Rightarrow> None | Some st1 \<Rightarrow> write_bit cpuMHz clk i st1) (j # js)
             (Some (d, f, pb, ob, k, s, ev)) = Some (d', f', pb', ob', k', s', ev')"
    by simp
  with tx_keeps_trans [OF t t'] show ?case by blast
qed

lemma write_bits_Some:
  assumes "cpuMHz \<noteq> 0"
  shows "\<exists>d' f' pb' ob' k' s' ev'.
           write_bits cpuMHz clk (d, f, pb, ob, k, s, ev) = Some (d', f', pb', ob', k', s', ev') \<and>
           tx_keeps s s'"
  unfolding write_bits_def using fold_write_bit_Some [OF assms] by blast

lemma write_bytes_Some:
  assumes "cpuMHz \<noteq> 0"
  shows "\<exists>s' ev'. write_bytes cpuMHz clk xs d f k s ev = Some (s', ev') \<and> tx_keeps s s'"
proof (induction xs arbitrary: d f k s ev)
  case Nil
  then show ?case by (simp add: tx_keeps_refl)
next
  case (Cons x xs)
  from write_bits_Some [OF assms, of clk
      "if m_invert s then d + word_of_int (m_bitCycles s) else d"
      "if m_invert s then f else f + word_of_int (m_bitCycles s)"
      "m_invert s" "if m_invert s then NOT x else x" k s ev]
  obtain d1 f1 pb1 ob1 k1 s1 ev1 where
    w: "write_bits cpuMHz clk
         (if m_invert s then d + word_of_int (m_bitCycles s) else d,
          if m_invert s then f else f + word_of_int (m_bitCycles s),
          m_invert s, if m_invert s then NOT x else x, k, s, ev) = Some (d1, f1, pb1, ob1, k1, s1, ev1)"
    and t: "tx_keeps s s1" by blast
  show ?case
  proof (cases "xs = []")
    case True
    from writePeriod_Some [OF assms, of clk d1 f1 k1 s1] obtain k2 s2 e where
      p: "writePeriod cpuMHz clk d1 f1 k1 s1 = Some (k2, s2, e)" and t2: "tx_keeps s1 s2" by blast
    have "write_bytes cpuMHz clk (x # xs) d f k s ev = Some (s2, ev1 @ e)"
      using True w p by simp
    with tx_keeps_trans [OF t t2] show ?thesis by blast
  next
    case False
    from Cons.IH [of d1 f1 k1 s1 ev1] obtain s' ev' where
      r: "write_bytes cpuMHz clk xs d1 f1 k1 s1 ev1 = Some (s', ev')" and t2: "tx_keeps s1 s'"
      by blast
    have "write_bytes cpuMHz clk (x # xs) d f k s ev = Some (s', ev')"
      using False w r by simp
    with tx_keeps_trans [OF t t2] show ?thesis by blast
  qed
qed

lemma tx_keeps_fields:
  "tx_keeps s s' \<Longrightarrow>
     m_isrInPos s' = m_isrInPos s \<and> m_isrOutPos s' = m_isrOutPos s \<and>
     m_txValid s' = m_txValid s \<and> m_intTxEnabled s' = m_intTxEnabled s \<and>
     m_txEnableValid s' = m_txEnableValid s"
  by (cases s, cases s') (simp add: tx_keeps_def)

lemma rxBits_in_idx:
  assumes "rx_wf s"
  shows "\<exists>s'. rxBits now s = Some s' \<and> rx_wf s' \<and> rx_keeps s s' \<and>
          m_isrInPos s' =
            (if synth_due now s then (m_isrInPos s + 1) mod m_isrBufSize s else m_isrInPos s)"
proof -
  from rxBits_wf [OF assms] obtain s' where r: "rxBits now s = Some s'" and w: "rx_wf s'" by blast
  from r obtain a s1 where
    rc: "rx_recover now (isr_avail (take_flags s)) (take_flags s) = Some (a, s1)"
    and d: "rx_drain (nat a) s1 = Some s'"
    by (auto simp: rxBits_def take_flags_simps split: option.splits if_splits)
  have k: "m_isrInPos s' = m_isrInPos s1" using rx_drain_keeps [OF d] by (simp add: decode_keeps_def)
  from assms have i: "0 \<le> m_isrInPos s" "m_isrInPos s < m_isrBufSize s"
    by (simp_all add: rx_wf_def)
  have n: "c_mod (m_isrInPos s + 1) (m_isrBufSize s) = Some ((m_isrInPos s + 1) mod m_isrBufSize s)"
    using i by (rule c_mod_next)
  have "m_isrInPos s1 =
        (if synth_due now s then (m_isrInPos s + 1) mod m_isrBufSize s else m_isrInPos s)"
  proof (cases "synth_due now s")
    case True
    then have due: "synth_due now (take_flags s)" by (simp add: take_flags_simps)
    from True have eq: "m_isrInPos s = m_isrOutPos s" by (simp add: synth_due_def)
    show ?thesis
      using rc rx_recover_due [OF due] n True eq
      by (auto simp: take_flags_simps rxRead_def split: option.splits if_splits)
  next
    case False
    then have "\<not> synth_due now (take_flags s)" by (simp add: take_flags_simps)
    from rx_recover_not_due [OF this] rc have "s1 = take_flags s" by simp
    then show ?thesis using False by (simp add: take_flags_simps)
  qed
  with r w k rxBits_keeps [OF r] show ?thesis by simp
qed

lemma top_bit_test: "(b AND 0x80 \<noteq> 0) = bit b 7" for b :: u8
proof -
  have "(0x80 :: u8) = push_bit 7 1" by simp
  then show ?thesis using bit_iff_and_push_bit_not_eq_0 [of b 7] by simp
qed

lemma hidden_fill_bit:
  assumes "i < 8"
  shows "bit (hidden_fill n b) i = (if i + n < 8 then bit b (i + n) else bit b 7)"
proof -
  have ff: "(0xff :: u8) = - 1" by simp
  show ?thesis
    using assms
    by (auto simp: hidden_fill_def Let_def top_bit_test ff bit_simps ac_simps
        dest: bit_imp_le_length)
qed

lemma bit_0x80: "bit (0x80 :: u8) i \<longleftrightarrow> i = 7"
proof -
  have "(0x80 :: u8) = 2 ^ 7" by simp
  then show ?thesis by (simp only: bit_exp_iff) auto
qed

lemma shift_in_bit:
  assumes "i < 8"
  shows "bit (let b = drop_bit 1 (c :: u8) in if level then b OR 0x80 else b) i =
         (if i = 7 then level else bit c (i + 1))"
proof -
  have 1: "bit (drop_bit 1 c OR 0x80) i \<longleftrightarrow> bit c (Suc i) \<or> i = 7"
    by (simp only: bit_or_iff bit_drop_bit_eq bit_0x80) simp
  have 2: "bit (drop_bit 1 c) i \<longleftrightarrow> bit c (Suc i)"
    by (simp only: bit_drop_bit_eq) simp
  have 3: "\<not> bit c 8" using bit_imp_le_length [of c 8] by auto
  show ?thesis unfolding Let_def using 1 2 3 by (cases level) auto
qed

lemma stamp_delta:
  fixes x :: u32
  shows "\<exists>d. - 1 \<le> d \<and> d \<le> 1 \<and> (x OR 1) XOR of_bool b = x + word_of_int d \<and>
             (((x OR 1) XOR of_bool b) AND 1 = of_bool (\<not> b))"
proof -
  have o: "x OR 1 = x + of_bool (even x)" by (rule or_one_eq)
  have odd: "odd (x OR 1)" by (simp add: even_or_iff)
  have x1: "(x OR 1) XOR 1 = (x OR 1) - 1"
    using xor_one_eq [of "x OR 1"] odd by simp
  show ?thesis
  proof (cases b)
    case True
    show ?thesis
    proof (cases "even x")
      case e: True
      then have "(x OR 1) XOR of_bool b = x + word_of_int 0" using True o x1 by simp
      moreover have "((x OR 1) XOR of_bool b) AND 1 = of_bool (\<not> b)"
        using True odd by (simp add: and_one_eq x1 mod_2_eq_odd)
      ultimately show ?thesis by (intro exI [of _ 0]) simp
    next
      case e: False
      then have "(x OR 1) XOR of_bool b = x + word_of_int (- 1)" using True o x1 by simp
      moreover have "((x OR 1) XOR of_bool b) AND 1 = of_bool (\<not> b)"
        using True odd by (simp add: and_one_eq x1 mod_2_eq_odd)
      ultimately show ?thesis by (intro exI [of _ "- 1"]) simp
    qed
  next
    case False
    have a: "((x OR 1) XOR of_bool b) AND 1 = of_bool (\<not> b)"
      using False odd by (simp add: and_one_eq mod_2_eq_odd)
    show ?thesis
    proof (cases "even x")
      case e: True
      then have "(x OR 1) XOR of_bool b = x + word_of_int 1" using False o by simp
      with a show ?thesis by (intro exI [of _ 1]) simp
    next
      case e: False
      then have "(x OR 1) XOR of_bool b = x + word_of_int 0" using False o by simp
      with a show ?thesis by (intro exI [of _ 0]) simp
    qed
  qed
qed

lemma sint_small: "- (2 ^ 31) \<le> v \<Longrightarrow> v < 2 ^ 31 \<Longrightarrow> sint (word_of_int v :: u32) = v"
  by (simp add: sint_sbintrunc' signed_take_bit_int_eq_self)

lemma div_between:
  fixes c b q :: int
  assumes "q * b \<le> c" "c < (q + 1) * b" "0 < b"
  shows "c div b = q"
proof -
  have "c = b * q + (c - q * b)" by (simp add: algebra_simps)
  moreover have "0 \<le> c - q * b" using assms by simp
  moreover have "c - q * b < b" using assms by (simp add: algebra_simps)
  ultimately show ?thesis using int_div_pos_eq by blast
qed

lemma div_at_least:
  fixes c b q :: int
  assumes "q * b \<le> c" "0 < b"
  shows "q \<le> c div b"
  using assms zdiv_mono1 [of "q * b" c b] by simp

lemma rx_hidden_result:
  assumes "0 < m_bitCycles s" "- 1 \<le> m_rxCurBit s" "m_rxCurBit s < 7" "m_bitCycles s \<le> cycles"
  shows "rx_hidden cycles s =
           Some (cycles - min (cycles div m_bitCycles s) (7 - m_rxCurBit s) * m_bitCycles s,
                 s\<lparr>m_rxCurByte :=
                     hidden_fill (nat (min (cycles div m_bitCycles s) (7 - m_rxCurBit s)))
                       (m_rxCurByte s),
                   m_rxCurBit := m_rxCurBit s + min (cycles div m_bitCycles s) (7 - m_rxCurBit s)\<rparr>)
         \<and> 1 \<le> min (cycles div m_bitCycles s) (7 - m_rxCurBit s)"
proof -
  have q: "1 \<le> cycles div m_bitCycles s"
    using div_at_least [of 1 "m_bitCycles s" cycles] assms by simp
  have sd: "cycles sdiv m_bitCycles s = cycles div m_bitCycles s"
    using assms by (simp add: sdiv_nonneg)
  have m: "(if cycles div m_bitCycles s > 7 - m_rxCurBit s then 7 - m_rxCurBit s
            else cycles div m_bitCycles s) = min (cycles div m_bitCycles s) (7 - m_rxCurBit s)"
    by (simp add: min_def)
  have h: "1 \<le> min (cycles div m_bitCycles s) (7 - m_rxCurBit s)" using q assms by simp
  show ?thesis
    using assms h by (simp add: rx_hidden_def c_div_def sd m Let_def)
qed

lemma hidden_fill_0: "hidden_fill 0 b = b"
  by (rule bit_word_eqI) (simp add: hidden_fill_bit)

lemma loop_complete:
  assumes wf: "rx_wf s" and k: "0 \<le> m_rxCurBit s" "m_rxCurBit s \<le> 7"
    and c: "(7 - m_rxCurBit s) * m_bitCycles s \<le> cycles" "0 \<le> cycles"
    and nf: "\<not> byte_full s"
  shows "\<exists>b. buf_store (m_buffer s) (m_inPos s) (pending_byte s) = Some b \<and>
           rx_bits_loop True cycles s =
             Some (s\<lparr>m_rxCurBit := 8, m_buffer := Some b, m_rxCurByte := 0,
                     m_inPos := (m_inPos s + 1) mod m_bufSize s\<rparr>)"
proof -
  from wf have bc: "0 < m_bitCycles s" by (simp add: rx_wf_def)
  define s1 where "s1 = s\<lparr>m_rxCurByte := pending_byte s, m_rxCurBit := 7\<rparr>"
  have w1: "rx_wf s1" using wf by (simp add: s1_def rx_wf_def)
  have nf1: "\<not> byte_full s1" using nf by (simp add: s1_def byte_full_def)
  from wf have i: "0 \<le> m_inPos s" "m_inPos s < m_bufSize s" by (simp_all add: rx_wf_def)
  have n: "c_mod (m_inPos s + 1) (m_bufSize s) = Some ((m_inPos s + 1) mod m_bufSize s)"
    using i by (rule c_mod_next)
  from wf have "alloc_len (m_buffer s) = m_bufSize s" "0 \<le> m_bufSize s"
    by (simp_all add: rx_wf_def)
  then obtain ys where ys: "m_buffer s = Some ys" "int (length ys) = m_bufSize s"
    using alloc_len_Some by blast
  define b where "b = ys[nat (m_inPos s) := pending_byte s]"
  have bs: "buf_store (m_buffer s) (m_inPos s) (pending_byte s) = Some b"
    using ys i by (simp add: buf_store_def b_def)
  define s2 where "s2 = s\<lparr>m_rxCurBit := 8, m_buffer := Some b, m_rxCurByte := 0,
                     m_inPos := (m_inPos s + 1) mod m_bufSize s\<rparr>"
  have st: "rx_store s1 = Some s2"
    using n nf bs by (simp add: rx_store_def s1_def s2_def byte_full_def)
  have fin: "rx_bits_loop True c' s1 = Some s2" for c'
  proof -
    have idle: "rx_bits_loop True c'' s2 = Some s2" for c''
      using loop_idle [of s2 True c''] by (simp add: s2_def)
    have "m_rxCurBit s1 = 7" by (simp add: s1_def)
    from loop_stop [OF this st, of True c'] show ?thesis using idle by simp
  qed
  have "rx_bits_loop True cycles s = Some s2"
  proof (cases "m_rxCurBit s = 7")
    case True
    then have "s1 = s"
      by (simp add: s1_def pending_byte_def hidden_fill_0)
    with fin [of cycles] show ?thesis by simp
  next
    case False
    with k have k7: "m_rxCurBit s < 7" "- 1 \<le> m_rxCurBit s" by simp_all
    have ge: "m_bitCycles s \<le> cycles"
    proof -
      have "1 * m_bitCycles s \<le> (7 - m_rxCurBit s) * m_bitCycles s"
        using k7 bc by (intro mult_right_mono) simp_all
      with c show ?thesis by simp
    qed
    have q: "7 - m_rxCurBit s \<le> cycles div m_bitCycles s"
      using div_at_least [OF c(1) bc] .
    then have m: "min (cycles div m_bitCycles s) (7 - m_rxCurBit s) = 7 - m_rxCurBit s" by simp
    have h: "rx_hidden cycles s = Some (cycles - (7 - m_rxCurBit s) * m_bitCycles s, s1)"
      using rx_hidden_result [OF bc k7(2) k7(1) ge] unfolding m
      by (simp add: s1_def pending_byte_def)
    have sh: "rx_shift True (cycles - (7 - m_rxCurBit s) * m_bitCycles s) s1 =
              (cycles - (7 - m_rxCurBit s) * m_bitCycles s, s1)"
      by (simp add: rx_shift_def s1_def)
    from loop_data [OF k7(2) k7(1) h sh] c fin show ?thesis by simp
  qed
  with bs show ?thesis by (intro exI [of _ b]) (simp add: s2_def)
qed

lemma rx_drain_Suc0: "rx_drain (Suc 0) s = rx_edge s"
  by (cases "rx_edge s") simp_all

lemma three_periods:
  assumes wf: "rx_wf s" and k: "0 \<le> m_rxCurBit s" "m_rxCurBit s \<le> 4"
    and bc: "6 \<le> m_bitCycles s" "3 * m_bitCycles s + 2 < 2 ^ 31"
    and last: "m_isrLastCycle s = (t OR 1) XOR of_bool l0"
    and edge: "buf_load (m_isrBuffer s) (m_isrOutPos s) =
               Some (((t + word_of_int (3 * m_bitCycles s)) OR 1) XOR of_bool l1)"
  shows "\<exists>s'. rx_edge s = Some s' \<and> m_rxCurBit s' = m_rxCurBit s + 3 \<and>
           bit (m_rxCurByte s') 7 = (l1 \<noteq> m_invert s) \<and>
           bit (m_rxCurByte s') 6 = bit (m_rxCurByte s) 7 \<and>
           bit (m_rxCurByte s') 5 = bit (m_rxCurByte s) 7 \<and>
           bit (m_rxCurByte s') 4 = bit (m_rxCurByte s) 7 \<and>
           (\<forall>i<4. bit (m_rxCurByte s') i = bit (m_rxCurByte s) (i + 3))"
proof -
  define b where "b = m_bitCycles s"
  define st where "st = ((t + word_of_int (3 * b)) OR 1) XOR of_bool l1"
  define nxt where "nxt = (m_isrOutPos s + 1) mod m_isrBufSize s"
  from wf have i: "0 \<le> m_isrOutPos s" "m_isrOutPos s < m_isrBufSize s"
    by (simp_all add: rx_wf_def)
  have n: "c_mod (m_isrOutPos s + 1) (m_isrBufSize s) = Some nxt"
    unfolding nxt_def using i by (rule c_mod_next)
  have tk: "isr_take s = Some (st, s\<lparr>m_isrOutPos := nxt\<rparr>)"
    using edge n by (simp add: isr_take_def st_def b_def)
  from stamp_delta [of "t + word_of_int (3 * b)" l1] obtain d1 where
    d1: "- 1 \<le> d1" "d1 \<le> 1" "st = t + word_of_int (3 * b) + word_of_int d1"
    and lv: "st AND 1 = of_bool (\<not> l1)"
    by (auto simp: st_def)
  from stamp_delta [of t l0] obtain d0 where
    d0: "- 1 \<le> d0" "d0 \<le> 1" "m_isrLastCycle s = t + word_of_int d0"
    by (auto simp: last)
  define d where "d = d1 - d0"
  have dr: "- 2 \<le> d" "d \<le> 2" using d0 d1 by (simp_all add: d_def)
  have e1: "st - m_isrLastCycle s = word_of_int (3 * b + d)"
    using d0(3) d1(3) by (simp add: d_def)
  have rng: "- (2 ^ 31) \<le> 3 * b + d" "3 * b + d < 2 ^ 31"
    using bc dr by (simp_all add: b_def)
  have el: "sint (st - m_isrLastCycle s) = 3 * b + d"
    unfolding e1 using rng by (rule sint_small)
  define cycles where "cycles = 3 * b + d - b div 2"
  have b6: "6 \<le> b" using bc by (simp add: b_def)
  have h2: "3 \<le> b div 2" using b6 by simp
  have hb: "2 * (b div 2) \<le> b" by simp
  have lo: "2 * b \<le> cycles" using dr b6 hb by (simp add: cycles_def)
  have hi: "cycles < (2 + 1) * b" using dr h2 by (simp add: cycles_def)
  have q: "cycles div b = 2" using div_between [OF lo hi] b6 by simp
  have c0: "0 \<le> cycles" "b \<le> cycles" using lo b6 by simp_all
  define sC where "sC = s\<lparr>m_isrOutPos := nxt, m_isrLastCycle := st\<rparr>"
  define level where "level = (l1 \<noteq> m_invert s)"
  have lev: "(st AND 1 = of_bool (m_invert s)) = level"
    unfolding lv level_def by (cases l1; cases "m_invert s") simp_all
  have re: "rx_edge s = rx_bits_loop level cycles sC"
    using tk lev el c0(1) b6
    by (simp add: rx_edge_def Let_def sC_def cycles_def b_def [symmetric] sdiv_nonneg)
  have fC: "m_rxCurBit sC = m_rxCurBit s" "m_bitCycles sC = b" "m_rxCurByte sC = m_rxCurByte s"
    by (simp_all add: sC_def b_def)
  have m: "min (cycles div m_bitCycles sC) (7 - m_rxCurBit sC) = 2"
    using q k by (simp add: fC)
  define s1 where "s1 = sC\<lparr>m_rxCurByte := hidden_fill 2 (m_rxCurByte s),
                           m_rxCurBit := m_rxCurBit s + 2\<rparr>"
  have hd: "rx_hidden cycles sC = Some (cycles - 2 * b, s1)"
    using rx_hidden_result [of sC cycles] b6 k c0 unfolding m
    by (simp add: fC s1_def)
  define s2 where "s2 = s1\<lparr>m_rxCurBit := m_rxCurBit s + 3,
      m_rxCurByte := (let x = drop_bit 1 (hidden_fill 2 (m_rxCurByte s))
                      in if level then x OR 0x80 else x)\<rparr>"
  have sh: "rx_shift level (cycles - 2 * b) s1 = (cycles - 2 * b - b, s2)"
    using k by (simp add: rx_shift_def s1_def s2_def fC sC_def b_def)
  have neg: "\<not> 0 \<le> cycles - 2 * b - b" using hi by simp
  have lp: "rx_bits_loop level cycles sC = Some s2"
    using loop_data [OF _ _ hd sh] k neg by (simp add: fC)
  have byt: "m_rxCurByte s2 = (let x = drop_bit 1 (hidden_fill 2 (m_rxCurByte s))
                      in if level then x OR 0x80 else x)"
    and cb: "m_rxCurBit s2 = m_rxCurBit s + 3"
    by (simp_all add: s2_def)
  have bits: "bit (m_rxCurByte s2) j =
      (if j = 7 then level else if j + 3 < 8 then bit (m_rxCurByte s) (j + 3) else bit (m_rxCurByte s) 7)"
    if "j < 8" for j
  proof -
    have 1: "bit (m_rxCurByte s2) j =
             (if j = 7 then level else bit (hidden_fill 2 (m_rxCurByte s)) (j + 1))"
      unfolding byt by (rule shift_in_bit [OF that])
    show ?thesis
    proof (cases "j = 7")
      case True
      with 1 show ?thesis by simp
    next
      case False
      with that have "j + 1 < 8" by simp
      moreover have "j + 1 + 2 = j + 3" by simp
      ultimately have "bit (hidden_fill 2 (m_rxCurByte s)) (j + 1) =
          (if j + 3 < 8 then bit (m_rxCurByte s) (j + 3) else bit (m_rxCurByte s) 7)"
        using hidden_fill_bit [of "j + 1" 2 "m_rxCurByte s"] by (simp only:)
      with 1 False show ?thesis by (simp only: if_False)
    qed
  qed
  show ?thesis
    using re lp cb bits [of 7] bits [of 6] bits [of 5] bits [of 4] bits
    by (intro exI [of _ s2]) (simp add: level_def)
qed

lemma read_in_idx:
  assumes "rx_wf s"
  shows "\<exists>r s'. read now s = Some (r, s') \<and>
          m_isrInPos s' =
            (if m_rxValid s \<and> m_inPos s = m_outPos s \<and> synth_due now s
             then (m_isrInPos s + 1) mod m_isrBufSize s else m_isrInPos s)"
proof (cases "m_rxValid s")
  case False
  then show ?thesis by (simp add: read_def)
next
  case True
  obtain s1 where s1: "(if m_inPos s = m_outPos s then rxBits now s else Some s) = Some s1"
    and w1: "rx_wf s1"
    and i1: "m_isrInPos s1 = (if m_inPos s = m_outPos s \<and> synth_due now s
             then (m_isrInPos s + 1) mod m_isrBufSize s else m_isrInPos s)"
  proof (cases "m_inPos s = m_outPos s")
    case e: True
    from rxBits_in_idx [OF assms, of now] obtain s1 where "rxBits now s = Some s1" "rx_wf s1"
      "m_isrInPos s1 =
         (if synth_due now s then (m_isrInPos s + 1) mod m_isrBufSize s else m_isrInPos s)"
      by blast
    with e that show ?thesis by simp
  next
    case False
    with assms that show ?thesis by simp
  qed
  from byte_take_wf [OF w1] obtain ch where
    bt: "byte_take s1 = Some (ch, s1\<lparr>m_outPos := (m_outPos s1 + 1) mod m_bufSize s1\<rparr>)" by blast
  show ?thesis
    unfolding read_def s1 using True bt i1 by simp
qed

lemma peek_in_idx:
  assumes "rx_wf s"
  shows "\<exists>r s'. peek now s = Some (r, s') \<and>
          m_isrInPos s' =
            (if m_rxValid s \<and> synth_due now s
             then (m_isrInPos s + 1) mod m_isrBufSize s else m_isrInPos s)"
proof (cases "m_rxValid s")
  case False
  then show ?thesis by (simp add: peek_def)
next
  case True
  from rxBits_in_idx [OF assms, of now] obtain s1 where r: "rxBits now s = Some s1" and w: "rx_wf s1"
    and i: "m_isrInPos s1 =
         (if synth_due now s then (m_isrInPos s + 1) mod m_isrBufSize s else m_isrInPos s)"
    by blast
  from w have "alloc_len (m_buffer s1) = m_bufSize s1" "0 \<le> m_bufSize s1"
    "0 \<le> m_outPos s1" "m_outPos s1 < m_bufSize s1"
    by (simp_all add: rx_wf_def)
  then obtain ys where "m_buffer s1 = Some ys" "int (length ys) = m_bufSize s1"
    "0 \<le> m_outPos s1" "m_outPos s1 < m_bufSize s1"
    using alloc_len_Some by blast
  then have "buf_load (m_buffer s1) (m_outPos s1) = Some (ys ! nat (m_outPos s1))"
    by (simp add: buf_load_def)
  then show ?thesis using True r i by (simp add: peek_def)
qed

lemma write_sws_Some:
  assumes r: "(if m_rxValid s then rxBits now_rx s else Some s) = Some s1"
    and f: "m_txValid s1 \<longrightarrow> cpuMHz \<noteq> 0"
  shows "\<exists>s' ev. write_sws cpuMHz clk now_rx now buffer s =
                  Some (if m_txValid s1 then length buffer else 0, s', ev) \<and>
                tx_keeps s1 s' \<and> (m_txValid s1 \<or> ev = [])"
proof (cases "m_txValid s1")
  case False
  then show ?thesis unfolding write_sws_def r by (simp add: tx_keeps_refl)
next
  case True
  with f have c: "cpuMHz \<noteq> 0" by simp
  define e1 where "e1 = (if m_txEnableValid s1 then [PinMode (m_txEnablePin s1) INPUT_PULLUP] else []) @
                     [PinMode (m_txPin s1) (if m_invert s1 then OUTPUT else INPUT_PULLUP)] @
                     (if \<not> m_intTxEnabled s1 then [NoInterrupts] else [])"
  from write_bytes_Some [OF c, of clk buffer 0 0 0 "s1\<lparr>m_periodDeadline := now\<rparr>" e1]
  obtain s3 e2 where wb: "write_bytes cpuMHz clk buffer 0 0 0 (s1\<lparr>m_periodDeadline := now\<rparr>) e1 = Some (s3, e2)"
    and k: "tx_keeps (s1\<lparr>m_periodDeadline := now\<rparr>) s3" by blast
  have k': "tx_keeps s1 s3" using tx_keeps_trans [OF tx_keeps_deadline k] .
  show ?thesis
    unfolding write_sws_def r using True wb k' by (simp add: Let_def e1_def)
qed

lemma write_in_idx:
  assumes "rx_wf s" "cpuMHz \<noteq> 0"
  shows "\<exists>k s' ev. write_sws cpuMHz clk now now2 buf s = Some (k, s', ev) \<and>
          m_isrInPos s' =
            (if m_rxValid s \<and> synth_due now s
             then (m_isrInPos s + 1) mod m_isrBufSize s else m_isrInPos s)"
proof -
  obtain s1 where s1: "(if m_rxValid s then rxBits now s else Some s) = Some s1"
    and i1: "m_isrInPos s1 = (if m_rxValid s \<and> synth_due now s
             then (m_isrInPos s + 1) mod m_isrBufSize s else m_isrInPos s)"
  proof (cases "m_rxValid s")
    case e: True
    from rxBits_in_idx [OF assms(1), of now] obtain s1 where "rxBits now s = Some s1"
      "m_isrInPos s1 =
         (if synth_due now s then (m_isrInPos s + 1) mod m_isrBufSize s else m_isrInPos s)"
      by blast
    with e that show ?thesis by simp
  next
    case False
    with that show ?thesis by simp
  qed
  from assms(2) have "m_txValid s1 \<longrightarrow> cpuMHz \<noteq> 0" by simp
  from write_sws_Some [OF s1 this, of clk now2 buf] obtain s' ev where
    w: "write_sws cpuMHz clk now now2 buf s = Some (if m_txValid s1 then length buf else 0, s', ev)"
    and k: "tx_keeps s1 s'" by blast
  from tx_keeps_fields [OF k] i1 w show ?thesis by simp
qed

lemma available_in_idx:
  assumes "rx_wf s"
  shows "\<exists>k s'. available now now2 s = Some (k, s') \<and>
          (m_isrInPos s' = m_isrInPos s \<or> synth_due now s \<or>
           (\<exists>s1. rxBits now s = Some s1 \<and> synth_due now2 s1))"
proof (cases "m_rxValid s")
  case False
  then show ?thesis by (simp add: available_def)
next
  case True
  from rxBits_in_idx [OF assms, of now] obtain s1 where r1: "rxBits now s = Some s1"
    and w1: "rx_wf s1"
    and i1: "m_isrInPos s1 =
         (if synth_due now s then (m_isrInPos s + 1) mod m_isrBufSize s else m_isrInPos s)"
    by blast
  from rxBits_in_idx [OF w1, of now2] obtain s2 where r2: "rxBits now2 s1 = Some s2"
    and i2: "m_isrInPos s2 =
         (if synth_due now2 s1 then (m_isrInPos s1 + 1) mod m_isrBufSize s1 else m_isrInPos s1)"
    by blast
  show ?thesis
  proof (cases "byte_avail s1 = 0")
    case z: True
    then have "available now now2 s = Some (byte_avail s2, s2)"
      using True r1 r2 by (simp add: available_def)
    then show ?thesis using r1 i1 i2 by (cases "synth_due now s"; cases "synth_due now2 s1") simp_all
  next
    case z: False
    then have "available now now2 s = Some (byte_avail s1, s1)"
      using True r1 by (simp add: available_def)
    then show ?thesis using i1 by (cases "synth_due now s") simp_all
  qed
qed

lemma rxRead_idx:
  assumes "rx_wf s"
  shows "\<exists>s'. rxRead t l s = Some s' \<and> m_isrOutPos s' = m_isrOutPos s \<and>
           m_isrInPos s' =
             (if isr_full s then m_isrInPos s else (m_isrInPos s + 1) mod m_isrBufSize s)"
proof -
  from rxRead_wf [OF assms] obtain s' where r: "rxRead t l s = Some s'" by blast
  from assms have i: "0 \<le> m_isrInPos s" "m_isrInPos s < m_isrBufSize s" by (simp_all add: rx_wf_def)
  have "m_isrInPos s' = (if isr_full s then m_isrInPos s else (m_isrInPos s + 1) mod m_isrBufSize s)"
    using r i by (auto simp: rxRead_def isr_full_def c_mod_next split: if_splits option.splits)
  with r rxRead_keeps [OF r] show ?thesis by simp
qed

subsection \<open>Claiming a slot\<close>

lemma first_free_None: "first_free i xs = None \<longleftrightarrow> None \<notin> set xs"
  by (induction xs arbitrary: i) auto

lemma first_free_Some: "first_free i xs = Some j \<Longrightarrow> i \<le> j"
  by (induction xs arbitrary: i) (auto split: if_splits dest: Suc_leD)

lemma begin_claim_full:
  "m_swsInstsIdx s < 0 \<Longrightarrow> None \<notin> set ObjList \<Longrightarrow> begin_claim this ObjList s = (ObjList, s)"
proof -
  assume "m_swsInstsIdx s < 0" "None \<notin> set ObjList"
  moreover from this have "first_free 0 ObjList = None" by (simp add: first_free_None)
  ultimately show ?thesis by (simp add: begin_claim_def)
qed

lemma begin_claim_slot:
  assumes "\<not> (m_swsInstsIdx s < 0 \<and> None \<notin> set ObjList)"
  shows "\<exists>tbl i. begin_claim this ObjList s = (tbl, s\<lparr>m_swsInstsIdx := i\<rparr>) \<and> 0 \<le> i"
proof (cases "m_swsInstsIdx s < 0")
  case True
  with assms have "first_free 0 ObjList \<noteq> None" by (simp add: first_free_None)
  then obtain i where "first_free 0 ObjList = Some i" by auto
  then have "begin_claim this ObjList s = (ObjList[i := Some this], s\<lparr>m_swsInstsIdx := int i\<rparr>)"
    using True by (simp add: begin_claim_def)
  then show ?thesis
    by (intro exI [of _ "ObjList[i := Some this]"] exI [of _ "int i"]) simp
next
  case False
  then have "begin_claim this ObjList s = (ObjList, s\<lparr>m_swsInstsIdx := m_swsInstsIdx s\<rparr>)"
    by (simp add: begin_claim_def)
  then show ?thesis using False by (intro exI [of _ ObjList] exI [of _ "m_swsInstsIdx s"]) simp
qed

lemma begin_arm_no_buffers:
  assumes "m_buffer s = None \<or> m_isrBuffer s = None" "\<not> m_rxValid s"
  shows "\<not> m_rxValid (fst (begin_arm bc s)) \<and> m_rxEnabled (fst (begin_arm bc s)) = m_rxEnabled s \<and>
         \<not> list_ex is_attach (snd (begin_arm bc s))"
  using assms by (auto simp: begin_arm_def Let_def enableRx_def is_attach_def)

section \<open>Reading from a port without reception\<close>

text \<open>
  C10. If reception was never initialised (\<open>m_rxValid\<close> is false), \<^verbatim>\<open>read\<close> and \<^verbatim>\<open>peek\<close>
  return the no-data result \<open>- 1\<close>, \<^verbatim>\<open>available\<close> returns 0, and each of them leaves the
  whole object unchanged.
\<close>

theorem rx_invalid_no_data:
  assumes "\<not> m_rxValid s"
  shows "read now s = Some (- 1, s) \<and> peek now s = Some (- 1, s) \<and>
         available now1 now2 s = Some (0, s)"
  using assms by (simp add: read_def peek_def available_def)

theorem rx_invalid_no_data_witness:
  "\<not> m_rxValid tx_only \<and> read 7 tx_only = Some (- 1, tx_only) \<and>
   peek 7 tx_only = Some (- 1, tx_only) \<and> available 7 9 tx_only = Some (0, tx_only)"
proof -
  have h: "\<not> m_rxValid tx_only" by code_simp
  show ?thesis using h rx_invalid_no_data [OF h, of 7 7 9] by simp
qed

section \<open>The 9600 baud scenario\<close>


section \<open>Flushing\<close>

text \<open>
  C8, as stated, fails: \<^verbatim>\<open>flush\<close> does not reset the reconstruction cursor. A port that
  has decoded the start bit and the first data bit of a byte keeps its bit index, its
  accumulator and its last edge stamp across \<^verbatim>\<open>flush\<close>, and the byte begun before the
  flush is delivered after it.
\<close>

theorem flush_keeps_cursor_counterexample:
  "m_rxCurBit rx_midbyte = 0 \<and> m_rxCurByte rx_midbyte = 0x80 \<and>
   m_rxCurBit (flush rx_midbyte) = 0 \<and> m_rxCurByte (flush rx_midbyte) = 0x80 \<and>
   m_isrLastCycle (flush rx_midbyte) = m_isrLastCycle rx_midbyte \<and>
   map_option fst (read 1100000 (flush rx_midbyte)) = Some 0xFF"
  by code_simp

text \<open>
  C8, amended. \<^verbatim>\<open>flush\<close> sets the four ring indices to 0, so that the byte ring and the
  edge ring are both empty; the allocations and the reconstruction cursor (bit index,
  accumulator, last edge stamp) are left as they were.
\<close>

theorem flush_empties_rings:
  "m_inPos (flush s) = 0 \<and> m_outPos (flush s) = 0 \<and>
   m_isrInPos (flush s) = 0 \<and> m_isrOutPos (flush s) = 0 \<and>
   byte_avail (flush s) = 0 \<and> isr_avail (flush s) = 0 \<and>
   m_buffer (flush s) = m_buffer s \<and> m_isrBuffer (flush s) = m_isrBuffer s \<and>
   m_rxCurBit (flush s) = m_rxCurBit s \<and> m_rxCurByte (flush s) = m_rxCurByte s \<and>
   m_isrLastCycle (flush s) = m_isrLastCycle s"
  by (simp add: flush_def byte_avail_def isr_avail_def)

section \<open>Enabling and disabling reception\<close>

text \<open>
  C9. \<^verbatim>\<open>enableRx\<close>, and \<^verbatim>\<open>enableTx\<close> which on a one-wire port with a transmit pin calls
  it with the opposite direction, leave both rings as they are: the same allocations,
  sizes, contents and indices. The only call \<^verbatim>\<open>enableRx\<close> makes attaches or detaches the
  edge interrupt (none when reception is not valid), and in the object it records the
  new \<open>m_rxEnabled\<close> and, when enabling, puts the bit index at idle (8).
\<close>

theorem enableRx_keeps_rings:
  "same_rings s (fst (enableRx on s)) \<and> same_rings s (fst (enableTx on s)) \<and>
   fst (enableRx on s) =
     s\<lparr>m_rxCurBit := (if m_rxValid s \<and> on then 8 else m_rxCurBit s),
       m_rxEnabled := (if m_rxValid s then on else m_rxEnabled s)\<rparr> \<and>
   snd (enableRx on s) =
     (if m_rxValid s then
        [if on then AttachInterrupt (m_rxPin s) (m_swsInstsIdx s) else DetachInterrupt (m_rxPin s)]
      else []) \<and>
   fst (enableTx on s) = (if m_oneWire s \<and> m_txValid s then fst (enableRx (\<not> on) s) else s)"
  by (simp add: same_rings_def enableRx_def enableTx_def split: prod.splits)

section \<open>Registration\<close>

text \<open>
  C6, as stated, fails: \<^verbatim>\<open>begin\<close> does not report failure when the buffers failed to
  allocate. For a port both of whose allocations failed, with a free slot in the table,
  it returns true.
\<close>

theorem begin_without_buffers_counterexample:
  "m_buffer port_nomem = None \<and> m_isrBuffer port_nomem = None \<and>
   map_option fst (begin_sws 80 (0::nat) 9600 empty_table port_nomem) = Some True"
  by code_simp

text \<open>
  C6, amended. For a nonzero baud rate \<^verbatim>\<open>begin\<close> returns failure exactly when the object
  has no slot and no slot of the table is free. A failed \<^verbatim>\<open>begin\<close> leaves the table and
  the object unchanged and makes no GPIO call, so it can be retried. When a buffer
  failed to allocate \<^verbatim>\<open>begin\<close> still succeeds, but reception stays invalid and no
  interrupt is attached.
\<close>

theorem begin_fails_only_without_slot:
  assumes "baud \<noteq> 0"
  shows "\<exists>ok tbl s1 ev. begin_sws cpuMHz this baud ObjList s = Some (ok, tbl, s1, ev) \<and>
           (ok \<longleftrightarrow> \<not> (m_swsInstsIdx s < 0 \<and> None \<notin> set ObjList)) \<and>
           (\<not> ok \<longrightarrow> tbl = ObjList \<and> s1 = s \<and> ev = []) \<and>
           (ok \<and> (m_buffer s = None \<or> m_isrBuffer s = None) \<and> \<not> m_rxValid s \<longrightarrow>
              \<not> m_rxValid s1 \<and> m_rxEnabled s1 = m_rxEnabled s \<and> \<not> list_ex is_attach ev)"
proof (cases "m_swsInstsIdx s < 0 \<and> None \<notin> set ObjList")
  case True
  then have "begin_sws cpuMHz this baud ObjList s = Some (False, ObjList, s, [])"
    by (simp add: begin_sws_def begin_claim_full)
  then show ?thesis using True
    by (intro exI [of _ False] exI [of _ ObjList] exI [of _ s] exI [of _ "[]"]) simp
next
  case False
  from begin_claim_slot [OF False, of this] obtain tbl i
    where c: "begin_claim this ObjList s = (tbl, s\<lparr>m_swsInstsIdx := i\<rparr>)" and i: "0 \<le> i"
    by blast
  define s0 where "s0 = s\<lparr>m_swsInstsIdx := i\<rparr>"
  define bc where "bc = cpuMHz * 1000000 sdiv baud"
  have r: "begin_sws cpuMHz this baud ObjList s =
           Some (True, tbl, fst (begin_arm bc s0), snd (begin_arm bc s0))"
    using c i assms by (simp add: begin_sws_def c_div_def s0_def bc_def split: prod.splits)
  have "\<not> m_rxValid (fst (begin_arm bc s0)) \<and> m_rxEnabled (fst (begin_arm bc s0)) = m_rxEnabled s \<and>
        \<not> list_ex is_attach (snd (begin_arm bc s0))"
    if "m_buffer s = None \<or> m_isrBuffer s = None" "\<not> m_rxValid s"
    using begin_arm_no_buffers [of s0 bc] that by (simp add: s0_def)
  then show ?thesis using r False
    by (intro exI [of _ True] exI [of _ tbl] exI [of _ "fst (begin_arm bc s0)"]
          exI [of _ "snd (begin_arm bc s0)"]) simp
qed

theorem begin_fails_only_without_slot_witness:
  "(9600::int) \<noteq> 0 \<and>
   begin_sws 80 (0::nat) 9600 full_table port_nomem = Some (False, full_table, port_nomem, []) \<and>
   map_option fst (begin_sws 80 (0::nat) 9600 empty_table port_nomem) = Some True \<and>
   map_option (\<lambda>(ok, tbl, s, ev). (m_rxValid s, list_ex is_attach ev))
     (begin_sws 80 (0::nat) 9600 empty_table port_nomem) = Some (False, False)"
proof -
  have h: "(9600::int) \<noteq> 0" by simp
  have a: "m_swsInstsIdx port_nomem < 0 \<and> None \<notin> set full_table" by code_simp
  have b: "\<not> (m_swsInstsIdx port_nomem < 0 \<and> None \<notin> set empty_table)" by code_simp
  have c: "(m_buffer port_nomem = None \<or> m_isrBuffer port_nomem = None) \<and> \<not> m_rxValid port_nomem"
    by code_simp
  from begin_fails_only_without_slot [OF h, of 80 "0::nat" full_table port_nomem] a
  have 1: "begin_sws 80 (0::nat) 9600 full_table port_nomem = Some (False, full_table, port_nomem, [])"
    by auto
  from begin_fails_only_without_slot [OF h, of 80 "0::nat" empty_table port_nomem] b c
  obtain tbl s1 ev where
    2: "begin_sws 80 (0::nat) 9600 empty_table port_nomem = Some (True, tbl, s1, ev)"
      "\<not> m_rxValid s1" "\<not> list_ex is_attach ev"
    by auto
  show ?thesis using h 1 2 by simp
qed

section \<open>The return value of write\<close>

text \<open>
  C7, as stated, fails: on a port without a valid transmit pin \<^verbatim>\<open>write\<close> of one byte
  returns 0, not 1.
\<close>

theorem write_without_tx_pin_counterexample:
  "\<not> m_txValid rx_only \<and> length [0x41 :: u8] = 1 \<and>
   map_option fst (write_sws 80 tx_clock 1000000 1000000 [0x41] rx_only) = Some 0"
  by code_simp

text \<open>
  C7, amended. On a port with a valid transmit pin \<^verbatim>\<open>write\<close> returns the number of bytes
  it was given, for every byte sequence and whatever the cycle counter reads; on a port
  without one it returns 0 and makes no GPIO call. In both cases the call returns,
  given that the receive state is well-formed where reception is valid (\<^verbatim>\<open>write\<close> starts
  by running \<^verbatim>\<open>rxBits\<close>) and that the clock frequency is not 0 where the port transmits
  (the delays divide by it).
\<close>

theorem write_returns_size:
  assumes "m_rxValid s \<longrightarrow> rx_wf s" and "m_txValid s \<longrightarrow> cpuMHz \<noteq> 0"
  shows "\<exists>s' ev. write_sws cpuMHz clk now_rx now buffer s =
                  Some (if m_txValid s then length buffer else 0, s', ev) \<and>
                (m_txValid s \<or> ev = [])"
proof -
  obtain s1 where s1: "(if m_rxValid s then rxBits now_rx s else Some s) = Some s1"
    and tx: "m_txValid s1 = m_txValid s"
  proof (cases "m_rxValid s")
    case True
    with assms obtain s1 where r: "rxBits now_rx s = Some s1" using rxBits_wf by blast
    from rxBits_keeps [OF r] have "m_txValid s1 = m_txValid s" by (simp add: rx_keeps_def)
    with r True that show ?thesis by simp
  next
    case False
    with that show ?thesis by simp
  qed
  from assms(2) tx have "m_txValid s1 \<longrightarrow> cpuMHz \<noteq> 0" by simp
  from write_sws_Some [OF s1 this, of clk now buffer] tx show ?thesis by auto
qed

theorem write_returns_size_witness:
  "rx_wf loop_tx \<and> m_txValid loop_tx \<and> (80 :: int) \<noteq> 0 \<and>
   (\<exists>s' ev. write_sws 80
              (readings [1000041, 1008374, 1016707, 1058372, 1066705, 1075038, 1083371, 1100037,
                         1108370, 1141702, 1150035, 1158368, 1166701, 1175034, 1191700, 1225032,
                         1233365, 1241698])
              1000000 1000001 [0x41, 0x42, 0x43] loop_tx =
              Some (if m_txValid loop_tx then length [0x41, 0x42, 0x43 :: u8] else 0, s', ev) \<and>
            (m_txValid loop_tx \<or> ev = []))"
proof -
  have w: "rx_wf loop_tx" and v: "m_txValid loop_tx" by code_simp+
  have f: "(80 :: int) \<noteq> 0" by simp
  from w have h: "m_rxValid loop_tx \<longrightarrow> rx_wf loop_tx" by simp
  from f have g: "m_txValid loop_tx \<longrightarrow> (80 :: int) \<noteq> 0" by simp
  note c = write_returns_size [OF h g, of
      "readings [1000041, 1008374, 1016707, 1058372, 1066705, 1075038, 1083371, 1100037,
                 1108370, 1141702, 1150035, 1158368, 1166701, 1175034, 1191700, 1225032,
                 1233365, 1241698]" 1000000 1000001 "[0x41, 0x42, 0x43]"]
  show ?thesis by (rule conjI [OF w conjI [OF v conjI [OF f c]]])
qed

section \<open>Hidden bits\<close>

text \<open>
  What lines 400-416 do. In the data bits (bit index \<open>- 1\<close> to 6), when the elapsed time
  of an edge, less half a bit period, is at least one bit period, \<open>rx_hidden\<close> takes
  \<open>h = min (cycles div bitCycles) (7 - bit index)\<close> hidden bits, at least one and never
  more than the data bits still missing: the accumulator moves down by \<open>h\<close> places and
  its top \<open>h\<close> bits all repeat its former top bit. From bit index 0 on that bit is the
  one received last, and an edge captured exactly three bit periods after the last one
  decodes in one pass of \<open>rx_edge\<close> to two hidden bits and the bit of the new level.
\<close>

lemma rx_hidden_repeats_top_bit:
  "(0 < m_bitCycles s \<and> - 1 \<le> m_rxCurBit s \<and> m_rxCurBit s < 7 \<and> m_bitCycles s \<le> cycles \<longrightarrow>
      (\<exists>h. h = min (cycles div m_bitCycles s) (7 - m_rxCurBit s) \<and> 1 \<le> h \<and>
            h \<le> 7 - m_rxCurBit s \<and>
            rx_hidden cycles s =
              Some (cycles - h * m_bitCycles s,
                    s\<lparr>m_rxCurByte := hidden_fill (nat h) (m_rxCurByte s),
                      m_rxCurBit := m_rxCurBit s + h\<rparr>) \<and>
            (\<forall>i<8. bit (hidden_fill (nat h) (m_rxCurByte s)) i =
                     (if i + nat h < 8 then bit (m_rxCurByte s) (i + nat h)
                      else bit (m_rxCurByte s) 7)))) \<and>
   (rx_wf r \<and> 0 \<le> m_rxCurBit r \<and> m_rxCurBit r \<le> 4 \<and> 6 \<le> m_bitCycles r \<and>
    3 * m_bitCycles r + 2 < 2 ^ 31 \<and> m_isrLastCycle r = (t OR 1) XOR of_bool l0 \<and>
    buf_load (m_isrBuffer r) (m_isrOutPos r) =
      Some (((t + word_of_int (3 * m_bitCycles r)) OR 1) XOR of_bool l1) \<longrightarrow>
      (\<exists>r'. rx_edge r = Some r' \<and> m_rxCurBit r' = m_rxCurBit r + 3 \<and>
            bit (m_rxCurByte r') 7 = (l1 \<noteq> m_invert r) \<and>
            bit (m_rxCurByte r') 6 = bit (m_rxCurByte r) 7 \<and>
            bit (m_rxCurByte r') 5 = bit (m_rxCurByte r) 7 \<and>
            bit (m_rxCurByte r') 4 = bit (m_rxCurByte r) 7 \<and>
            (\<forall>i<4. bit (m_rxCurByte r') i = bit (m_rxCurByte r) (i + 3))))"
proof (intro conjI impI)
  assume a: "0 < m_bitCycles s \<and> - 1 \<le> m_rxCurBit s \<and> m_rxCurBit s < 7 \<and> m_bitCycles s \<le> cycles"
  define h where "h = min (cycles div m_bitCycles s) (7 - m_rxCurBit s)"
  from a have r: "rx_hidden cycles s =
      Some (cycles - h * m_bitCycles s,
            s\<lparr>m_rxCurByte := hidden_fill (nat h) (m_rxCurByte s), m_rxCurBit := m_rxCurBit s + h\<rparr>)"
    and h1: "1 \<le> h"
    using rx_hidden_result [of s cycles] by (simp_all add: h_def)
  have h2: "h \<le> 7 - m_rxCurBit s" by (simp add: h_def)
  have b: "\<forall>i<8. bit (hidden_fill (nat h) (m_rxCurByte s)) i =
                     (if i + nat h < 8 then bit (m_rxCurByte s) (i + nat h)
                      else bit (m_rxCurByte s) 7)"
    using hidden_fill_bit by blast
  show "\<exists>h. h = min (cycles div m_bitCycles s) (7 - m_rxCurBit s) \<and> 1 \<le> h \<and>
            h \<le> 7 - m_rxCurBit s \<and>
            rx_hidden cycles s =
              Some (cycles - h * m_bitCycles s,
                    s\<lparr>m_rxCurByte := hidden_fill (nat h) (m_rxCurByte s),
                      m_rxCurBit := m_rxCurBit s + h\<rparr>) \<and>
            (\<forall>i<8. bit (hidden_fill (nat h) (m_rxCurByte s)) i =
                     (if i + nat h < 8 then bit (m_rxCurByte s) (i + nat h)
                      else bit (m_rxCurByte s) 7))"
    using r h1 h2 b h_def by blast
next
  assume "rx_wf r \<and> 0 \<le> m_rxCurBit r \<and> m_rxCurBit r \<le> 4 \<and> 6 \<le> m_bitCycles r \<and>
    3 * m_bitCycles r + 2 < 2 ^ 31 \<and> m_isrLastCycle r = (t OR 1) XOR of_bool l0 \<and>
    buf_load (m_isrBuffer r) (m_isrOutPos r) =
      Some (((t + word_of_int (3 * m_bitCycles r)) OR 1) XOR of_bool l1)"
  then show "\<exists>r'. rx_edge r = Some r' \<and> m_rxCurBit r' = m_rxCurBit r + 3 \<and>
            bit (m_rxCurByte r') 7 = (l1 \<noteq> m_invert r) \<and>
            bit (m_rxCurByte r') 6 = bit (m_rxCurByte r) 7 \<and>
            bit (m_rxCurByte r') 5 = bit (m_rxCurByte r) 7 \<and>
            bit (m_rxCurByte r') 4 = bit (m_rxCurByte r) 7 \<and>
            (\<forall>i<4. bit (m_rxCurByte r') i = bit (m_rxCurByte r) (i + 3))"
    using three_periods [of r t l0 l1] by blast
qed

text \<open>
  \<open>rx_shift\<close> leaves the bit it received at the top of the accumulator, and a byte that
  is stored leaves the accumulator at 0 (line 427, "reset to 0 is important for masked
  bit logic"), the level of the start bit that follows. A byte that finds the byte
  ring full (lines 429-431) leaves the accumulator as it is, and so does
  \<^verbatim>\<open>enableRx(true)\<close>, which puts the bit index at idle.
\<close>

lemma rx_shift_top_bit:
  "m_rxCurBit s < 7 \<Longrightarrow> bit (m_rxCurByte (snd (rx_shift level cycles s))) 7 = level"
  using shift_in_bit [where i = 7 and level = level and c = "m_rxCurByte s"]
  by (simp add: rx_shift_def)

lemma rx_store_accumulator:
  "rx_store s = Some s' \<Longrightarrow>
     m_rxCurBit s' = 8 \<and> m_rxCurByte s' = (if byte_full s then m_rxCurByte s else 0)"
  by (auto simp: rx_store_def byte_full_def split: option.splits if_splits)

text \<open>
  C2 holds of the specification and not of the code. With the bit index at \<open>- 1\<close> (the
  start bit seen, no data bit yet) the bit received last is the start bit, which is
  low, but the code repeats the top bit of the accumulator, which is that of an
  earlier byte whenever that byte was not stored. On a port that holds one byte, the
  byte \<open>0xFF\<close> is lost to the full ring and its bits stay in the accumulator; the byte
  \<open>0x00\<close> that follows (two edges nine bit periods apart, as the transmitter makes
  them) is then read as \<open>0xFF\<close>, where the same edges on the port as \<^verbatim>\<open>begin\<close> left it
  are read as \<open>0x00\<close>. The same happens when reception is enabled again in the
  middle of a byte.
\<close>

theorem hidden_bits_stale_accumulator:
  "m_rxCurBit rx_overflowed = 8 \<and> m_rxCurByte rx_overflowed = 0xFF \<and> m_overflow rx_overflowed \<and>
   byte_avail rx_overflowed = 0 \<and> isr_avail rx_overflowed = 0 \<and>
   tx_edges [1400040, 1475037] 1400000 [0x00] = zero_frame 1400000 \<and>
   read_after (zero_frame 1400000) 1500000 narrow_rx = Some 0 \<and>
   read_after (zero_frame 1400000) 1500000 rx_overflowed = Some 0xFF \<and>
   m_rxCurBit rx_reenabled = 8 \<and> m_rxCurByte rx_reenabled = 0x80 \<and>
   byte_avail rx_reenabled = 0 \<and> isr_avail rx_reenabled = 0 \<and>
   read_after (zero_frame 1400000) 1500000 loop_rx = Some 0 \<and>
   read_after (zero_frame 1400000) 1500000 rx_reenabled = Some 0xFF"
  by code_simp

section \<open>Recovery of a byte whose stop bit made no edge\<close>

text \<open>
  C3, as stated, fails for a port that has seen the start bit and no data bit yet (bit
  index \<open>- 1\<close>): with the edge ring empty and more than 11 bit periods elapsed since
  the start edge, \<^verbatim>\<open>rxBits\<close> changes nothing and \<^verbatim>\<open>read\<close> has no data.
\<close>

theorem start_bit_only_counterexample:
  "m_rxCurBit rx_startbit = - 1 \<and> m_isrInPos rx_startbit = m_isrOutPos rx_startbit \<and>
   isr_avail rx_startbit = 0 \<and>
   (word_of_int ((10 - m_rxCurBit rx_startbit) * m_bitCycles rx_startbit) :: u32)
     \<le> 1100000 - m_isrLastCycle rx_startbit \<and>
   rxBits 1100000 rx_startbit = Some rx_startbit \<and>
   map_option fst (read 1100000 rx_startbit) = Some (- 1)"
  by code_simp

text \<open>
  C3, amended. Whenever the edge ring is empty, the bit index is between 0 and 7 (at
  least one data bit decoded, the byte not yet stored), and the cycle counter is at
  least \<open>(10 - bit index)\<close> bit periods past the last recorded edge (\<open>synth_due\<close>), then,
  for an edge ring of more than one slot, a byte ring that is not full and a bit period
  below a tenth of \<open>2 ^ 31\<close> cycles, \<^verbatim>\<open>rxBits\<close> does what the interrupt handler followed by
  one pass of the drain loop would do for an edge to the stop-bit level captured at
  \<open>lastEdge + (10 - bit index) * bitCycles\<close>: the data bits still missing are filled in
  as hidden bits and the byte is stored in the byte ring, with the cursor back at idle
  and the edge ring empty again. No following start bit is needed.
\<close>

theorem stop_bit_recovery:
  assumes wf: "rx_wf s" and due: "synth_due now s"
    and room: "1 < m_isrBufSize s" and nf: "\<not> byte_full s"
    and small: "10 * m_bitCycles s + 1 < 2 ^ 31"
  shows "\<exists>b s'. rxBits now s = Some s' \<and>
           rxBits now s =
             (case rxRead (synth_stamp s) (\<not> m_invert s) (take_flags s) of
                None \<Rightarrow> None | Some s1 \<Rightarrow> rx_drain 1 s1) \<and>
           buf_store (m_buffer s) (m_inPos s) (pending_byte s) = Some b \<and>
           m_buffer s' = Some b \<and> m_inPos s' = (m_inPos s + 1) mod m_bufSize s \<and>
           m_outPos s' = m_outPos s \<and> byte_avail s' = byte_avail s + 1 \<and>
           m_rxCurBit s' = 8 \<and> m_rxCurByte s' = 0 \<and> m_isrInPos s' = m_isrOutPos s'"
proof -
  define bc where "bc = m_bitCycles s"
  define k where "k = m_rxCurBit s"
  define sF where "sF = take_flags s"
  define nxt where "nxt = (m_isrInPos s + 1) mod m_isrBufSize s"
  define st where "st = (synth_stamp s OR 1) XOR of_bool (\<not> m_invert s)"
  from wf have bcp: "0 < bc" by (simp add: rx_wf_def bc_def)
  from due have k: "0 \<le> k" "k < 8" and eq: "m_isrInPos s = m_isrOutPos s"
    by (simp_all add: synth_due_def k_def)
  from wf have i: "0 \<le> m_isrInPos s" "m_isrInPos s < m_isrBufSize s"
    by (simp_all add: rx_wf_def)
  from wf have "alloc_len (m_isrBuffer s) = m_isrBufSize s" "0 \<le> m_isrBufSize s"
    by (simp_all add: rx_wf_def)
  then obtain xs where xs: "m_isrBuffer s = Some xs" "int (length xs) = m_isrBufSize s"
    using alloc_len_Some by blast
  have n: "c_mod (m_isrInPos s + 1) (m_isrBufSize s) = Some nxt"
    unfolding nxt_def using i by (rule c_mod_next)
  have nn: "nxt \<noteq> m_isrOutPos s" "0 \<le> nxt" "nxt < m_isrBufSize s"
    using i room eq by (auto simp: nxt_def next_idx)
  have fl: "m_isrInPos sF = m_isrInPos s" "m_isrOutPos sF = m_isrOutPos s"
    "m_isrBufSize sF = m_isrBufSize s" "m_isrBuffer sF = m_isrBuffer s" "m_invert sF = m_invert s"
    "m_bitCycles sF = m_bitCycles s" "m_rxCurBit sF = m_rxCurBit s" "m_rxCurByte sF = m_rxCurByte s"
    "m_isrLastCycle sF = m_isrLastCycle s" "m_buffer sF = m_buffer s" "m_inPos sF = m_inPos s"
    "m_outPos sF = m_outPos s" "m_bufSize sF = m_bufSize s"
    by (simp_all add: sF_def take_flags_def)
  define sA where "sA = sF\<lparr>m_isrBuffer := Some (xs[nat (m_isrInPos s) := st]), m_isrInPos := nxt\<rparr>"
  have rd: "rxRead (synth_stamp s) (\<not> m_invert s) sF = Some sA"
    using n nn xs i by (simp add: rxRead_def fl buf_store_def sA_def st_def)
  have dueF: "synth_due now sF" using due by (simp add: sF_def take_flags_simps)
  have rc: "rx_recover now (isr_avail s) sF = Some (1, sA)"
    using rx_recover_due [OF dueF] n nn rd
    by (simp add: fl sF_def take_flags_simps)
  have rb: "rxBits now s = rx_edge sA"
    using rc by (simp add: rxBits_def sF_def rx_drain_Suc0 del: rx_drain.simps)
  define sC where "sC = sA\<lparr>m_isrOutPos := nxt, m_isrLastCycle := st\<rparr>"
  have tk: "isr_take sA = Some (st, sA\<lparr>m_isrOutPos := nxt\<rparr>)"
    using n xs i eq by (simp add: isr_take_def sA_def fl buf_load_def)
  from stamp_delta [of "synth_stamp s" "\<not> m_invert s"] obtain d where
    d: "- 1 \<le> d" "d \<le> 1" "st = synth_stamp s + word_of_int d"
    and lv: "st AND 1 = of_bool (m_invert s)"
    by (auto simp: st_def)
  have e1: "st - m_isrLastCycle s = word_of_int ((10 - k) * bc + d)"
    using d(3) by (simp add: synth_stamp_def k_def bc_def)
  have rng: "- (2 ^ 31) \<le> (10 - k) * bc + d" "(10 - k) * bc + d < 2 ^ 31"
  proof -
    have "0 \<le> (10 - k) * bc" using k bcp by simp
    with d show "- (2 ^ 31) \<le> (10 - k) * bc + d" by simp
    have "(10 - k) * bc \<le> 10 * bc" using k bcp by (intro mult_right_mono) simp_all
    with d small show "(10 - k) * bc + d < 2 ^ 31" by (simp add: bc_def)
  qed
  have el: "sint (st - m_isrLastCycle s) = (10 - k) * bc + d"
    unfolding e1 using rng by (rule sint_small)
  define cycles where "cycles = (10 - k) * bc + d - bc div 2"
  have cy: "(7 - k) * bc \<le> cycles" "0 \<le> cycles"
  proof -
    have "bc div 2 \<le> bc" using bcp by simp
    then have "(7 - k) * bc \<le> (10 - k) * bc - 1 - bc div 2"
      using bcp by (simp add: algebra_simps)
    with d show "(7 - k) * bc \<le> cycles" by (simp add: cycles_def)
    moreover have "0 \<le> (7 - k) * bc" using k bcp by simp
    ultimately show "0 \<le> cycles" by simp
  qed
  have re: "rx_edge sA = rx_bits_loop True cycles sC"
    using tk lv el cy(2) bcp
    by (simp add: rx_edge_def Let_def sA_def fl sC_def cycles_def bc_def sdiv_nonneg)
  have wC: "rx_wf sC"
    using wf nn xs by (simp add: sC_def sA_def sF_def take_flags_def rx_wf_def alloc_len_def)
  have fC: "m_rxCurBit sC = k" "m_bitCycles sC = bc" "m_buffer sC = m_buffer s"
    "m_inPos sC = m_inPos s" "m_outPos sC = m_outPos s" "m_bufSize sC = m_bufSize s"
    "pending_byte sC = pending_byte s" "m_isrInPos sC = nxt" "m_isrOutPos sC = nxt"
    by (simp_all add: sC_def sA_def fl k_def bc_def pending_byte_def)
  have nfC: "\<not> byte_full sC" using nf by (simp add: byte_full_def fC)
  from loop_complete [OF wC _ _ _ cy(2) nfC] k cy(1) obtain b where
    b: "buf_store (m_buffer s) (m_inPos s) (pending_byte s) = Some b"
    and lp: "rx_bits_loop True cycles sC =
             Some (sC\<lparr>m_rxCurBit := 8, m_buffer := Some b, m_rxCurByte := 0,
                       m_inPos := (m_inPos s + 1) mod m_bufSize s\<rparr>)"
    by (auto simp: fC)
  define s' where "s' = sC\<lparr>m_rxCurBit := 8, m_buffer := Some b, m_rxCurByte := 0,
                       m_inPos := (m_inPos s + 1) mod m_bufSize s\<rparr>"
  have r: "rxBits now s = Some s'" using rb re lp by (simp add: s'_def)
  have path: "rxBits now s =
     (case rxRead (synth_stamp s) (\<not> m_invert s) (take_flags s) of
        None \<Rightarrow> None | Some s1 \<Rightarrow> rx_drain 1 s1)"
    using rb rd by (simp add: sF_def rx_drain_Suc0 del: rx_drain.simps)
  from wf have j: "0 \<le> m_inPos s" "m_inPos s < m_bufSize s" "0 \<le> m_outPos s"
    "m_outPos s < m_bufSize s" by (simp_all add: rx_wf_def)
  have av: "byte_avail s' = byte_avail s + 1"
    using j nf
    by (auto simp: byte_avail_def Let_def byte_full_def c_mod_next next_idx s'_def fC
        split: if_splits)
  show ?thesis
    using r path b av
    by (intro exI [of _ b] exI [of _ s']) (simp add: s'_def fC)
qed

theorem stop_bit_recovery_witness:
  "(rx_wf rx_midbyte \<and> synth_due 1100000 rx_midbyte \<and> 1 < m_isrBufSize rx_midbyte \<and>
    \<not> byte_full rx_midbyte \<and> 10 * m_bitCycles rx_midbyte + 1 < 2 ^ 31) \<and>
   (\<exists>b s'. rxBits 1100000 rx_midbyte = Some s' \<and>
           rxBits 1100000 rx_midbyte =
             (case rxRead (synth_stamp rx_midbyte) (\<not> m_invert rx_midbyte) (take_flags rx_midbyte) of
                None \<Rightarrow> None | Some s1 \<Rightarrow> rx_drain 1 s1) \<and>
           buf_store (m_buffer rx_midbyte) (m_inPos rx_midbyte) (pending_byte rx_midbyte) = Some b \<and>
           m_buffer s' = Some b \<and>
           m_inPos s' = (m_inPos rx_midbyte + 1) mod m_bufSize rx_midbyte \<and>
           m_outPos s' = m_outPos rx_midbyte \<and> byte_avail s' = byte_avail rx_midbyte + 1 \<and>
           m_rxCurBit s' = 8 \<and> m_rxCurByte s' = 0 \<and> m_isrInPos s' = m_isrOutPos s') \<and>
   pending_byte rx_midbyte = 0xFF"
proof -
  have h: "rx_wf rx_midbyte" "synth_due 1100000 rx_midbyte" "1 < m_isrBufSize rx_midbyte"
    "\<not> byte_full rx_midbyte" "10 * m_bitCycles rx_midbyte + 1 < 2 ^ 31"
    by code_simp+
  have v: "pending_byte rx_midbyte = 0xFF" by code_simp
  note c = stop_bit_recovery [OF h]
  from h c v show ?thesis by (intro conjI)
qed

section \<open>The ring invariant\<close>

text \<open>
  C4. From a well-formed port with both rings empty, every sequence of captures, edge
  takes, byte stores and byte takes runs without fault, and after it the count of each
  ring as \<^verbatim>\<open>rxBits\<close> and \<^verbatim>\<open>available\<close> compute it from the indices equals the number of
  items put in less the number taken out, lies between 0 and the capacity less one, and
  reaches the capacity less one exactly when the ring is full by the test "the index
  after the write index is the read index". \<^verbatim>\<open>available\<close> called then returns a count that
  is at most the capacity less one and at most the count of the byte ring it leaves.
\<close>

theorem ring_counts:
  assumes "rx_wf s0" "m_inPos s0 = m_outPos s0" "m_isrInPos s0 = m_isrOutPos s0"
  shows "\<exists>s n. ring_run ops (s0, no_items) = Some (s, n) \<and>
           byte_avail s = int (bytes_in n) - int (bytes_out n) \<and>
           0 \<le> byte_avail s \<and> byte_avail s \<le> m_bufSize s0 - 1 \<and>
           (byte_full s \<longleftrightarrow> byte_avail s = m_bufSize s0 - 1) \<and>
           isr_avail s = int (edges_in n) - int (edges_out n) \<and>
           0 \<le> isr_avail s \<and> isr_avail s \<le> m_isrBufSize s0 - 1 \<and>
           (isr_full s \<longleftrightarrow> isr_avail s = m_isrBufSize s0 - 1) \<and>
           (\<exists>k s'. available now1 now2 s = Some (k, s') \<and> 0 \<le> k \<and> k \<le> m_bufSize s0 - 1 \<and>
                    k \<le> byte_avail s')"
proof -
  have "ring_inv s0 (s0, no_items)"
    using assms by (simp add: ring_inv_def byte_avail_def isr_avail_def no_items_def)
  from ring_run_inv [OF this, of ops] obtain s n where
    r: "ring_run ops (s0, no_items) = Some (s, n)"
    and i: "ring_inv s0 (s, n)" by fastforce
  from i have w: "rx_wf s" and z: "m_bufSize s = m_bufSize s0" "m_isrBufSize s = m_isrBufSize s0"
    and b: "byte_avail s = int (bytes_in n) - int (bytes_out n)"
    and e: "isr_avail s = int (edges_in n) - int (edges_out n)"
    by (simp_all add: ring_inv_def)
  from available_range [OF w, of now1 now2] obtain k s' where
    a: "available now1 now2 s = Some (k, s')" "0 \<le> k" "k \<le> m_bufSize s - 1"
      "m_rxValid s \<longrightarrow> k = byte_avail s'" by blast
  have a': "k \<le> byte_avail s'"
  proof (cases "m_rxValid s")
    case True
    with a show ?thesis by simp
  next
    case False
    then have "k = 0" "s' = s" using a(1) by (simp_all add: available_def)
    then show ?thesis using byte_avail_range [OF w] by simp
  qed
  show ?thesis
    using r b e z byte_avail_range [OF w] isr_avail_range [OF w] byte_full_iff [OF w]
      isr_full_iff [OF w] a a'
    by (intro exI [of _ s] exI [of _ n]) simp
qed

theorem ring_counts_witness:
  "(rx_wf loop_rx \<and> m_inPos loop_rx = m_outPos loop_rx \<and> m_isrInPos loop_rx = m_isrOutPos loop_rx) \<and>
   (\<exists>s n. ring_run [Capture 1000000 False, Capture 1008333 True, TakeEdge, StoreByte, StoreByte,
                    TakeByte, TakeEdge, TakeEdge] (loop_rx, no_items) = Some (s, n) \<and>
           byte_avail s = int (bytes_in n) - int (bytes_out n) \<and>
           0 \<le> byte_avail s \<and> byte_avail s \<le> m_bufSize loop_rx - 1 \<and>
           (byte_full s \<longleftrightarrow> byte_avail s = m_bufSize loop_rx - 1) \<and>
           isr_avail s = int (edges_in n) - int (edges_out n) \<and>
           0 \<le> isr_avail s \<and> isr_avail s \<le> m_isrBufSize loop_rx - 1 \<and>
           (isr_full s \<longleftrightarrow> isr_avail s = m_isrBufSize loop_rx - 1) \<and>
           (\<exists>k s'. available 1010000 1020000 s = Some (k, s') \<and> 0 \<le> k \<and>
                    k \<le> m_bufSize loop_rx - 1 \<and> k \<le> byte_avail s'))"
proof -
  have h: "rx_wf loop_rx" "m_inPos loop_rx = m_outPos loop_rx" "m_isrInPos loop_rx = m_isrOutPos loop_rx"
    by code_simp+
  note c = ring_counts [OF h, of "[Capture 1000000 False, Capture 1008333 True, TakeEdge, StoreByte,
      StoreByte, TakeByte, TakeEdge, TakeEdge]" 1010000 1020000]
  from h c show ?thesis by (intro conjI)
qed

section \<open>Who writes the indices of the edge ring\<close>

text \<open>
  C5, as stated, fails: the foreground advances the write index of the edge ring. For a
  port in the middle of a byte with the edge ring empty, \<^verbatim>\<open>rxBits\<close> (and \<^verbatim>\<open>read\<close> through
  it) moves \<open>m_isrInPos\<close> from 2 to 3 when it stores the stop-bit edge it makes up, and
  \<^verbatim>\<open>flush\<close> sets it to 0.
\<close>

theorem foreground_writes_index_counterexample:
  "m_isrInPos rx_midbyte = 2 \<and> map_option m_isrInPos (rxBits 1100000 rx_midbyte) = Some 3 \<and>
   map_option (m_isrInPos \<circ> snd) (read 1100000 rx_midbyte) = Some 3 \<and>
   m_isrInPos (flush rx_midbyte) = 0"
  by code_simp

text \<open>
  C5, amended. On a well-formed port the interrupt handler \<open>rxRead\<close> never changes the
  read index of the edge ring and advances the write index by one unless the ring is
  full; the drain loop never changes the write index; \<^verbatim>\<open>rxBits\<close>, and \<^verbatim>\<open>read\<close>, \<^verbatim>\<open>peek\<close>,
  \<^verbatim>\<open>write\<close> and \<^verbatim>\<open>available\<close> where they call it, leave the write index alone except
  when the stop-bit recovery is due (\<open>synth_due\<close>), in which case the foreground
  advances it by one; \<^verbatim>\<open>flush\<close> sets both indices to 0. (\<^verbatim>\<open>write\<close> returns for a clock
  frequency other than 0, which its delays divide by.)
\<close>

theorem edge_ring_index_writers:
  assumes "rx_wf s" and "cpuMHz \<noteq> 0"
  shows "(\<exists>s'. rxRead t l s = Some s' \<and> m_isrOutPos s' = m_isrOutPos s \<and>
            m_isrInPos s' =
              (if isr_full s then m_isrInPos s else (m_isrInPos s + 1) mod m_isrBufSize s)) \<and>
         (\<exists>s'. rx_drain n s = Some s' \<and> m_isrInPos s' = m_isrInPos s) \<and>
         (\<exists>s'. rxBits now s = Some s' \<and>
            m_isrInPos s' =
              (if synth_due now s then (m_isrInPos s + 1) mod m_isrBufSize s else m_isrInPos s)) \<and>
         (\<exists>r s'. read now s = Some (r, s') \<and>
            m_isrInPos s' =
              (if m_rxValid s \<and> m_inPos s = m_outPos s \<and> synth_due now s
               then (m_isrInPos s + 1) mod m_isrBufSize s else m_isrInPos s)) \<and>
         (\<exists>r s'. peek now s = Some (r, s') \<and>
            m_isrInPos s' =
              (if m_rxValid s \<and> synth_due now s
               then (m_isrInPos s + 1) mod m_isrBufSize s else m_isrInPos s)) \<and>
         (\<exists>k s' ev. write_sws cpuMHz clk now now2 buf s = Some (k, s', ev) \<and>
            m_isrInPos s' =
              (if m_rxValid s \<and> synth_due now s
               then (m_isrInPos s + 1) mod m_isrBufSize s else m_isrInPos s)) \<and>
         (\<exists>k s'. available now now2 s = Some (k, s') \<and>
            (m_isrInPos s' = m_isrInPos s \<or> synth_due now s \<or>
             (\<exists>s1. rxBits now s = Some s1 \<and> synth_due now2 s1))) \<and>
         m_isrInPos (flush s) = 0 \<and> m_isrOutPos (flush s) = 0"
proof -
  note wf = assms(1)
  from rx_drain_wf [OF wf, of n] obtain s' where d: "rx_drain n s = Some s'" by blast
  from rx_drain_keeps [OF d] have "m_isrInPos s' = m_isrInPos s" by (simp add: decode_keeps_def)
  with d have 2: "\<exists>s'. rx_drain n s = Some s' \<and> m_isrInPos s' = m_isrInPos s" by blast
  from rxBits_in_idx [OF wf, of now]
  have 3: "\<exists>s'. rxBits now s = Some s' \<and>
            m_isrInPos s' =
              (if synth_due now s then (m_isrInPos s + 1) mod m_isrBufSize s else m_isrInPos s)"
    by blast
  note 1 = rxRead_idx [OF wf, of t l]
  note 4 = read_in_idx [OF wf, of now]
  note 5 = peek_in_idx [OF wf, of now]
  note 6 = write_in_idx [OF assms, of clk now now2 buf]
  note 7 = available_in_idx [OF wf, of now now2]
  have 8: "m_isrInPos (flush s) = 0" and 9: "m_isrOutPos (flush s) = 0"
    by (simp_all add: flush_def)
  show ?thesis
    by (intro conjI) (rule 1, rule 2, rule 3, rule 4, rule 5, rule 6, rule 7, rule 8, rule 9)
qed

theorem edge_ring_index_writers_witness:
  "rx_wf rx_midbyte \<and> (80 :: int) \<noteq> 0 \<and>
   ((\<exists>s'. rxRead 1033332 False rx_midbyte = Some s' \<and> m_isrOutPos s' = m_isrOutPos rx_midbyte \<and>
            m_isrInPos s' =
              (if isr_full rx_midbyte then m_isrInPos rx_midbyte
               else (m_isrInPos rx_midbyte + 1) mod m_isrBufSize rx_midbyte)) \<and>
    (\<exists>s'. rx_drain 0 rx_midbyte = Some s' \<and> m_isrInPos s' = m_isrInPos rx_midbyte) \<and>
    (\<exists>s'. rxBits 1010001 rx_midbyte = Some s' \<and>
            m_isrInPos s' =
              (if synth_due 1010001 rx_midbyte
               then (m_isrInPos rx_midbyte + 1) mod m_isrBufSize rx_midbyte
               else m_isrInPos rx_midbyte)) \<and>
    (\<exists>r s'. read 1010001 rx_midbyte = Some (r, s') \<and>
            m_isrInPos s' =
              (if m_rxValid rx_midbyte \<and> m_inPos rx_midbyte = m_outPos rx_midbyte \<and>
                  synth_due 1010001 rx_midbyte
               then (m_isrInPos rx_midbyte + 1) mod m_isrBufSize rx_midbyte
               else m_isrInPos rx_midbyte)) \<and>
    (\<exists>r s'. peek 1010001 rx_midbyte = Some (r, s') \<and>
            m_isrInPos s' =
              (if m_rxValid rx_midbyte \<and> synth_due 1010001 rx_midbyte
               then (m_isrInPos rx_midbyte + 1) mod m_isrBufSize rx_midbyte
               else m_isrInPos rx_midbyte)) \<and>
    (\<exists>k s' ev. write_sws 80 (\<lambda>k. tx_clock k + 10002) 1010001 1010002 [0x41] rx_midbyte =
                 Some (k, s', ev) \<and>
            m_isrInPos s' =
              (if m_rxValid rx_midbyte \<and> synth_due 1010001 rx_midbyte
               then (m_isrInPos rx_midbyte + 1) mod m_isrBufSize rx_midbyte
               else m_isrInPos rx_midbyte)) \<and>
    (\<exists>k s'. available 1010001 1010002 rx_midbyte = Some (k, s') \<and>
            (m_isrInPos s' = m_isrInPos rx_midbyte \<or> synth_due 1010001 rx_midbyte \<or>
             (\<exists>s1. rxBits 1010001 rx_midbyte = Some s1 \<and> synth_due 1010002 s1))) \<and>
    m_isrInPos (flush rx_midbyte) = 0 \<and> m_isrOutPos (flush rx_midbyte) = 0) \<and>
   \<not> synth_due 1010001 rx_midbyte \<and> synth_due 1100000 rx_midbyte"
proof -
  have h: "rx_wf rx_midbyte" by code_simp
  have v: "\<not> synth_due 1010001 rx_midbyte \<and> synth_due 1100000 rx_midbyte" by code_simp
  have f: "(80 :: int) \<noteq> 0" by simp
  note c = edge_ring_index_writers [OF h f, of 1033332 False 0 1010001
      "\<lambda>k. tx_clock k + 10002" 1010002 "[0x41]"]
  show ?thesis by (rule conjI [OF h conjI [OF f conjI [OF c v]]])
qed

end
